theory Spec2Isabelle
  imports Complex_Main "HOL-Library.Log_Nat"
begin

section \<open>Numeric values of the array library\<close>

text \<open>
  The two notebooks work on numpy arrays. An integer array has dtype int64: its entries
  are modelled by \<open>int\<close> values, taken to lie in the 64-bit range (\<open>is_int64\<close>), and
  the sum of a row wraps around as the machine addition does. A float64 value is
  \<open>Fin q\<close> for the rational \<open>q\<close> that it denotes (\<open>Fin 0\<close> is the positive zero),
  the negative zero, \<open>nan\<close>, or one of the two infinities. Every floating-point
  operation rounds its exact result to the nearest float64, a tie going to the even
  significand.
\<close>

text \<open>
  Neither notebook defines an exception class or contains a \<open>raise\<close> statement. A call
  can still end in an exception that the interpreter or a library raises by itself:
  \<open>ValueError\<close> for a reduction of a zero-size array and for shapes that do not
  broadcast (older releases of the array library answer the latter comparison with the
  scalar \<open>False\<close>, and \<open>.sum()\<close> on it raises \<open>AttributeError\<close>). These are one
  constructor, \<open>LibraryException\<close>. \<open>InvalidInput\<close> is the custom condition that the
  description of the accuracy function names.
\<close>

datatype py_error = LibraryException | InvalidInput

datatype npfloat = Fin rat | NZero | NaN | PInf | NInf

text \<open>\<open>rint\<close>: the nearest integer, a tie going to the even neighbour.\<close>

definition rint :: "rat \<Rightarrow> int" where
  "rint q =
     (let f = \<lfloor>q\<rfloor>; d = q - of_int f
      in if d < 1 / 2 then f
         else if 1 / 2 < d then f + 1
         else if even f then f else f + 1)"

subsection \<open>Rounding to float64\<close>

text \<open>
  The binary exponent of a positive rational: the \<open>e\<close> with \<open>2 ^ e \<le> x < 2 ^ (e + 1)\<close>.
\<close>

definition floor_log2 :: "rat \<Rightarrow> int" where
  "floor_log2 x =
     (case quotient_of x of
        (a, b) \<Rightarrow> (let d = bitlen a - bitlen b in if 2 powi d \<le> x then d else d - 1))"

text \<open>
  The float64 nearest to a rational, before the test for overflow: a significand of 53
  bits at the exponent of \<open>x\<close>, and a fixed spacing of \<open>2 ^ -1074\<close> below the smallest
  normal exponent \<open>-1022\<close>.
\<close>

definition nearest_float64 :: "rat \<Rightarrow> rat" where
  "nearest_float64 x =
     (if x = 0 then 0
      else (let e = max (floor_log2 \<bar>x\<bar>) (- 1022);
                ulp = 2 powi (e - 52)
            in of_int (rint (x / ulp)) * ulp))"

text \<open>
  The float64 result of an operation whose exact result is \<open>x\<close>: a rounded magnitude of
  \<open>2 ^ 1024\<close> or more overflows to an infinity, and a negative result that rounds to
  zero is the negative zero.
\<close>

definition to_float64 :: "rat \<Rightarrow> npfloat" where
  "to_float64 x =
     (let r = nearest_float64 x
      in if 2 ^ 1024 \<le> \<bar>r\<bar> then (if 0 < x then PInf else NInf)
         else if r = 0 \<and> x < 0 then NZero
         else Fin r)"

subsection \<open>64-bit integers\<close>

definition is_int64 :: "int \<Rightarrow> bool" where
  "is_int64 x = (- (2 ^ 63) \<le> x \<and> x < 2 ^ 63)"

text \<open>The value that 64-bit two's-complement arithmetic keeps of an exact result.\<close>

definition wrap64 :: "int \<Rightarrow> int" where
  "wrap64 x = (x + 2 ^ 63) mod 2 ^ 64 - 2 ^ 63"

text \<open>An int64 converted to float64; the conversion never overflows.\<close>

definition int64_to_float :: "int \<Rightarrow> rat" where
  "int64_to_float x = nearest_float64 (of_int x)"

subsection \<open>Operations on floats\<close>

text \<open>
  \<open>a / b\<close> on numpy integers is true division: both sides are converted to float64 and
  divided there. A zero divisor raises nothing: the result is \<open>nan\<close> for \<open>0 / 0\<close> and a
  signed infinity otherwise (with a warning). The divisor converted from an integer
  zero is the positive zero.
\<close>

definition true_divide :: "int \<Rightarrow> int \<Rightarrow> npfloat" where
  "true_divide x d =
     (let a = int64_to_float x; b = int64_to_float d
      in if b = 0 then (if a = 0 then NaN else if 0 < a then PInf else NInf)
         else if a = 0 then (if b < 0 then NZero else Fin 0)
         else to_float64 (a / b))"

text \<open>Multiplication and division of a float by a finite float \<open>f > 0\<close>.\<close>

definition fmul_pos :: "npfloat \<Rightarrow> rat \<Rightarrow> npfloat" where
  "fmul_pos x f = (case x of Fin q \<Rightarrow> to_float64 (q * f) | _ \<Rightarrow> x)"

definition fdiv_pos :: "npfloat \<Rightarrow> rat \<Rightarrow> npfloat" where
  "fdiv_pos x f = (case x of Fin q \<Rightarrow> to_float64 (q / f) | _ \<Rightarrow> x)"

text \<open>\<open>rint\<close> on a float; the result keeps the sign of the argument.\<close>

definition frint :: "npfloat \<Rightarrow> npfloat" where
  "frint x =
     (case x of
        Fin q \<Rightarrow> (if rint q = 0 \<and> q < 0 then NZero else Fin (of_int (rint q)))
      | _ \<Rightarrow> x)"

text \<open>
  \<open>round(x, ndigits)\<close> on a float64 scalar of the array library, for \<open>ndigits \<ge> 0\<close>:
  the library multiplies by the float \<open>10 ^ ndigits\<close>, applies \<open>rint\<close> and divides by the
  same float, each step rounded to float64. (When the factor itself overflows, every
  argument ends in \<open>nan\<close>.)
\<close>

definition round_ndigits :: "npfloat \<Rightarrow> nat \<Rightarrow> npfloat" where
  "round_ndigits x ndigits =
     (case to_float64 (10 ^ ndigits) of
        Fin f \<Rightarrow> fdiv_pos (frint (fmul_pos x f)) f
      | _ \<Rightarrow> NaN)"

section \<open>model_accuracy\<close>

text \<open>
  \<open>pred == target\<close> on two one-dimensional arrays compares elementwise. Arrays of equal
  length are compared position by position; an array of length one is broadcast against
  the other; any other pair of lengths is rejected by the library.
\<close>

definition np_equal :: "int list \<Rightarrow> int list \<Rightarrow> py_error + bool list" where
  "np_equal a b =
     (if length a = length b then Inr (map (\<lambda>(x, y). x = y) (zip a b))
      else if length a = 1 then Inr (map (\<lambda>y. hd a = y) b)
      else if length b = 1 then Inr (map (\<lambda>x. x = hd b) a)
      else Inl LibraryException)"

text \<open>\<open>comparison.sum()\<close>: True counts 1 and False counts 0.\<close>

definition bool_sum :: "bool list \<Rightarrow> int" where
  "bool_sum bs = sum_list (map (\<lambda>b. if b then 1 else 0) bs)"

text \<open>
  \<^verbatim>\<open>
  def model_accuracy(pred, target):
      n = len(target)
      comparison = pred == target
      correct = comparison.sum()
      return round(correct/n, 2)
  \<close>
\<close>

definition model_accuracy :: "int list \<Rightarrow> int list \<Rightarrow> py_error + npfloat" where
  "model_accuracy pred target =
     (let n = length target
      in case np_equal pred target of
           Inl e \<Rightarrow> Inl e
         | Inr comparison \<Rightarrow>
             (let correct = bool_sum comparison
              in Inr (round_ndigits (true_divide correct (int n)) 2)))"

section \<open>Arrays in a store\<close>

text \<open>
  A two-dimensional array is a list of rows; an \<open>ndarray\<close> is rectangular, which
  \<open>is_matrix\<close> says. \<open>shape0\<close> and \<open>shape1\<close> are \<open>cm.shape[0]\<close> and \<open>cm.shape[1]\<close>.
\<close>

definition shape0 :: "'a list list \<Rightarrow> nat" where
  "shape0 m = length m"

definition shape1 :: "'a list list \<Rightarrow> nat" where
  "shape1 m = (case m of [] \<Rightarrow> 0 | r # _ \<Rightarrow> length r)"

definition is_matrix :: "'a list list \<Rightarrow> bool" where
  "is_matrix m = list_all (\<lambda>r. length r = shape1 m) m"

text \<open>
  The element of an array is an integer or a float, according to the array's dtype.
  Where an integer element meets a float operand it is converted to float64.
\<close>

datatype npnum = IntV int | FloatV npfloat

definition to_float :: "npnum \<Rightarrow> npfloat" where
  "to_float v = (case v of IntV x \<Rightarrow> Fin (int64_to_float x) | FloatV f \<Rightarrow> f)"

text \<open>
  Arrays live in a store and are passed by reference. Integer arrays and float arrays
  are kept in separate heaps; \<open>next_float\<close> is the first address of the float heap that
  is not in use. A local name holds a reference to one of the two heaps.
\<close>

type_synonym addr = nat

record store =
  int_arrays :: "addr \<Rightarrow> int list list"
  float_arrays :: "addr \<Rightarrow> npfloat list list"
  next_float :: addr

datatype array_ref = IntRef addr | FloatRef addr

definition load :: "store \<Rightarrow> array_ref \<Rightarrow> npnum list list" where
  "load s r =
     (case r of
        IntRef a \<Rightarrow> map (map IntV) (int_arrays s a)
      | FloatRef a \<Rightarrow> map (map FloatV) (float_arrays s a))"

definition alloc_float :: "store \<Rightarrow> npfloat list list \<Rightarrow> store \<times> array_ref" where
  "alloc_float s m =
     (s\<lparr>float_arrays := (float_arrays s)(next_float s := m),
        next_float := Suc (next_float s)\<rparr>,
      FloatRef (next_float s))"

subsection \<open>Row normalisation\<close>

text \<open>\<open>cm.sum(axis=1)\<close>: one sum per row, added in int64.\<close>

definition row_sum :: "int list \<Rightarrow> int" where
  "row_sum r = wrap64 (sum_list r)"

definition row_sums :: "int list list \<Rightarrow> int list" where
  "row_sums m = map row_sum m"

text \<open>
  \<open>cm.astype('float') / cm.sum(axis=1)[:, np.newaxis]\<close>: every entry of a row is
  divided by the sum of that row. No test of the divisor comes before the division.
\<close>

definition normalize_rows :: "int list list \<Rightarrow> npfloat list list" where
  "normalize_rows m = map (\<lambda>(r, d). map (\<lambda>x. true_divide x d) r) (zip m (row_sums m))"

subsection \<open>Maximum and comparison\<close>

text \<open>
  \<open>a > b\<close> on floats: false as soon as one side is \<open>nan\<close>; the two zeros are equal.
\<close>

definition fval :: "npfloat \<Rightarrow> rat" where
  "fval x = (case x of Fin q \<Rightarrow> q | _ \<Rightarrow> 0)"

definition fgt :: "npfloat \<Rightarrow> npfloat \<Rightarrow> bool" where
  "fgt a b =
     (case a of
        NaN \<Rightarrow> False
      | NInf \<Rightarrow> False
      | PInf \<Rightarrow> (case b of NaN \<Rightarrow> False | PInf \<Rightarrow> False | _ \<Rightarrow> True)
      | _ \<Rightarrow> (case b of NaN \<Rightarrow> False | PInf \<Rightarrow> False | NInf \<Rightarrow> True
               | _ \<Rightarrow> fval b < fval a))"

text \<open>
  The reduction \<open>cm.max()\<close> folds the binary maximum over all entries, and an array
  without entries is rejected. On an integer array the maximum is the integer one. On a
  float array a \<open>nan\<close> entry makes the result \<open>nan\<close>. (Which of two zeros of different
  sign a maximum keeps depends on the order of the reduction; the result is used in
  \<open>cm.max() / 2.\<close> and the comparison with it only, where the zeros are equal.)
\<close>

definition maximum :: "npnum \<Rightarrow> npnum \<Rightarrow> npnum" where
  "maximum a b =
     (case (a, b) of
        (IntV x, IntV y) \<Rightarrow> IntV (max x y)
      | _ \<Rightarrow> (if to_float a = NaN then a
              else if to_float b = NaN then b
              else if fgt (to_float b) (to_float a) then b else a))"

definition amax :: "npnum list list \<Rightarrow> py_error + npnum" where
  "amax m = (case concat m of [] \<Rightarrow> Inl LibraryException | x # xs \<Rightarrow> Inr (foldl maximum x xs))"

text \<open>\<open>cm.max() / 2.\<close>: a float, whatever the dtype of the array.\<close>

definition halve :: "npnum \<Rightarrow> npfloat" where
  "halve v = fdiv_pos (to_float v) 2"

text \<open>\<open>cm[i, j] > thresh\<close>.\<close>

definition exceeds :: "npnum \<Rightarrow> npfloat \<Rightarrow> bool" where
  "exceeds v thresh = fgt (to_float v) thresh"

section \<open>plot_confusion_matrix\<close>

text \<open>
  The plotting library is driven through calls on the current figure. The model records
  each call with its arguments, in the order in which the function issues them; the
  array handed to \<open>imshow\<close> is recorded with the entries it has at the time of the call.
\<close>

datatype colour = White | Black

datatype 'l plt_call =
    Figure nat nat                           \<comment> \<open>\<open>plt.figure(figsize=(w, h))\<close>\<close>
  | Imshow "npnum list list" string string   \<comment> \<open>data, interpolation, cmap\<close>
  | Title string
  | Colorbar
  | Xticks "nat list" "'l list" nat          \<comment> \<open>positions, labels, rotation\<close>
  | Yticks "nat list" "'l list"              \<comment> \<open>positions, labels\<close>
  | Text nat nat npnum string colour         \<comment> \<open>x, y, content, horizontalalignment, color\<close>
  | TightLayout
  | Ylabel string
  | Xlabel string
  | Show

text \<open>The defaults of the keyword parameters.\<close>

definition default_normalize :: bool where
  "default_normalize = False"

definition default_title :: string where
  "default_title = ''Confusion matrix''"

definition default_cmap :: string where
  "default_cmap = ''Blues''"

text \<open>\<open>np.arange(n)\<close>.\<close>

definition arange :: "nat \<Rightarrow> nat list" where
  "arange n = [0..<n]"

text \<open>
  The function of the scikit-learn notebook.
  \<^verbatim>\<open>
  def plot_confusion_matrix(cm, classes, normalize=False,
                            title='Confusion matrix', cmap=plt.cm.Blues):
      fig = plt.figure(figsize=(8, 8))
      plt.imshow(cm, interpolation='nearest', cmap=cmap)
      plt.title(title)
      plt.colorbar()
      tick_marks = np.arange(len(classes))
      plt.xticks(tick_marks, classes, rotation=45)
      plt.yticks(tick_marks, classes)

      if normalize:
          cm = cm.astype('float') / cm.sum(axis=1)[:, np.newaxis]

      thresh = cm.max() / 2.
      for i, j in itertools.product(range(cm.shape[0]), range(cm.shape[1])):
          plt.text(j, i, cm[i, j],
                   horizontalalignment="center",
                   color="white" if cm[i, j] > thresh else "black")

      plt.tight_layout()
      plt.ylabel('True label')
      plt.xlabel('Predicted label')
      plt.show()
  \<close>
  The parameter \<open>cm\<close> is the address of the caller's integer array. The result is the
  store after the call, the calls issued on the figure, and the exception that ended
  the call, if one did.
\<close>

definition plot_confusion_matrix ::
  "store \<Rightarrow> addr \<Rightarrow> 'l list \<Rightarrow> bool \<Rightarrow> string \<Rightarrow> string
     \<Rightarrow> store \<times> 'l plt_call list \<times> py_error option" where
  "plot_confusion_matrix s cm classes normalize_flag title cmap =
     (let fig = [Figure 8 8,
                 Imshow (load s (IntRef cm)) ''nearest'' cmap,
                 Title title,
                 Colorbar];
          tick_marks = arange (length classes);
          ticks = [Xticks tick_marks classes 45, Yticks tick_marks classes];
          (s1, cm1) = (if normalize_flag then alloc_float s (normalize_rows (int_arrays s cm))
                       else (s, IntRef cm))
      in case amax (load s1 cm1) of
           Inl e \<Rightarrow> (s1, fig @ ticks, Some e)
         | Inr mx \<Rightarrow>
             (let thresh = halve mx;
                  texts = map (\<lambda>(i, j). Text j i (load s1 cm1 ! i ! j) ''center''
                                 (if exceeds (load s1 cm1 ! i ! j) thresh then White else Black))
                              (List.product [0..<shape0 (load s1 cm1)] [0..<shape1 (load s1 cm1)])
              in (s1,
                  fig @ ticks @ texts @
                    [TightLayout, Ylabel ''True label'', Xlabel ''Predicted label'', Show],
                  None)))"

text \<open>
  The function of the Keras notebook, from that notebook's own cell.
  \<^verbatim>\<open>
  def plot_confusion_matrix(cm, classes, normalize=False,
                            title='Confusion matrix', cmap=plt.cm.Blues):
      fig = plt.figure(figsize=(8, 8))
      plt.imshow(cm, interpolation='nearest', cmap=cmap)
      plt.title(title)
      plt.colorbar()
      tick_marks = np.arange(len(classes))
      plt.xticks(tick_marks, classes, rotation=45)
      plt.yticks(tick_marks, classes)

      if normalize:
          cm = cm.astype('float') / cm.sum(axis=1)[:, np.newaxis]

      thresh = cm.max() / 2.
      for i, j in itertools.product(range(cm.shape[0]), range(cm.shape[1])):
          plt.text(j, i, cm[i, j],
                   horizontalalignment="center",
                   color="white" if cm[i, j] > thresh else "black")

      plt.tight_layout()
      plt.ylabel('True label')
      plt.xlabel('Predicted label')
      plt.show()
  \<close>
\<close>

definition plot_confusion_matrix_keras ::
  "store \<Rightarrow> addr \<Rightarrow> 'l list \<Rightarrow> bool \<Rightarrow> string \<Rightarrow> string
     \<Rightarrow> store \<times> 'l plt_call list \<times> py_error option" where
  "plot_confusion_matrix_keras s cm classes normalize_flag title cmap =
     (let fig = [Figure 8 8,
                 Imshow (load s (IntRef cm)) ''nearest'' cmap,
                 Title title,
                 Colorbar];
          tick_marks = arange (length classes);
          ticks = [Xticks tick_marks classes 45, Yticks tick_marks classes];
          (s1, cm1) = (if normalize_flag then alloc_float s (normalize_rows (int_arrays s cm))
                       else (s, IntRef cm))
      in case amax (load s1 cm1) of
           Inl e \<Rightarrow> (s1, fig @ ticks, Some e)
         | Inr mx \<Rightarrow>
             (let thresh = halve mx;
                  texts = map (\<lambda>(i, j). Text j i (load s1 cm1 ! i ! j) ''center''
                                 (if exceeds (load s1 cm1 ! i ! j) thresh then White else Black))
                              (List.product [0..<shape0 (load s1 cm1)] [0..<shape1 (load s1 cm1)])
              in (s1,
                  fig @ ticks @ texts @
                    [TightLayout, Ylabel ''True label'', Xlabel ''Predicted label'', Show],
                  None)))"

section \<open>Notions used to state the properties\<close>

text \<open>
  The array that the local name \<open>cm\<close> denotes after the \<open>if normalize:\<close> statement:
  the row-normalised floats when the flag is set, the caller's integers otherwise.
\<close>

definition displayed :: "int list list \<Rightarrow> bool \<Rightarrow> npnum list list" where
  "displayed m normalize_flag =
     (if normalize_flag then map (map FloatV) (normalize_rows m) else map (map IntV) m)"

text \<open>The text annotations among the recorded calls that sit at grid position \<open>(x, y)\<close>.\<close>

definition annotations_at :: "'l plt_call list \<Rightarrow> nat \<Rightarrow> nat \<Rightarrow> 'l plt_call list" where
  "annotations_at calls x y =
     filter (\<lambda>c. case c of Text x' y' _ _ _ \<Rightarrow> x' = x \<and> y' = y | _ \<Rightarrow> False) calls"

text \<open>The calls that set axis ticks, and the calls that draw an image.\<close>

definition tick_calls :: "'l plt_call list \<Rightarrow> 'l plt_call list" where
  "tick_calls calls =
     filter (\<lambda>c. case c of Xticks _ _ _ \<Rightarrow> True | Yticks _ _ \<Rightarrow> True | _ \<Rightarrow> False) calls"

definition image_calls :: "'l plt_call list \<Rightarrow> 'l plt_call list" where
  "image_calls calls = filter (\<lambda>c. case c of Imshow _ _ _ \<Rightarrow> True | _ \<Rightarrow> False) calls"

text \<open>
  The values of the cells in exact arithmetic: the integer entries, or each entry divided
  by the sum of its row.
\<close>

definition exact_values :: "int list list \<Rightarrow> bool \<Rightarrow> rat list list" where
  "exact_values m normalize_flag =
     (if normalize_flag then map (\<lambda>r. map (\<lambda>x. of_int x / of_int (sum_list r)) r) m
      else map (map of_int) m)"

text \<open>
  A store for examples. Address 0: a two-class confusion matrix with rows of different
  sums. Address 1: a matrix with a row of zeros. Address 2: a matrix without entries.
  Address 3: two counts above \<open>2 ^ 53\<close>. Address 4: a row whose sum is \<open>2 ^ 64\<close>.
\<close>

definition example_store :: store where
  "example_store =
     \<lparr>int_arrays = (\<lambda>_. [])
        (0 := [[1, 3], [20, 20]],
         1 := [[0, 0], [1, 3]],
         3 := [[9007199254740993, 18014398509481984]],
         4 := [[9223372036854775807, 9223372036854775807, 2]]),
      float_arrays = (\<lambda>_. []),
      next_float = 0\<rparr>"

section \<open>Auxiliary facts\<close>

subsection \<open>The binary exponent\<close>

lemma bitlen_rat_bounds:
  assumes "0 < a"
  shows "2 powi (bitlen a - 1) \<le> (of_int a :: rat)" and "(of_int a :: rat) < 2 powi (bitlen a)"
proof -
  have b: "2 ^ nat (bitlen a - 1) \<le> a" "a < 2 ^ nat (bitlen a)"
    using bitlen_bounds [OF assms] by auto
  have pos: "1 \<le> bitlen a"
    using assms bitlen_eq_zero_iff [of a] bitlen_nonneg [of a] by linarith
  have "(of_int (2 ^ nat (bitlen a - 1)) :: rat) \<le> of_int a"
    using b(1) by (simp only: of_int_le_iff)
  then show "2 powi (bitlen a - 1) \<le> (of_int a :: rat)"
    using pos by (simp add: power_int_def)
  have "(of_int a :: rat) < of_int (2 ^ nat (bitlen a))"
    using b(2) by (simp only: of_int_less_iff)
  then show "(of_int a :: rat) < 2 powi (bitlen a)"
    using pos by (simp add: power_int_def)
qed

lemma floor_log2_bounds:
  assumes "0 < x"
  shows "2 powi (floor_log2 x) \<le> x" and "x < 2 powi (floor_log2 x + 1)"
proof -
  obtain a b where q: "quotient_of x = (a, b)" by (cases "quotient_of x")
  have b: "0 < b" using q quotient_of_denom_pos by blast
  have x: "x = of_int a / of_int b" using q by (rule quotient_of_div)
  have a: "0 < a" using assms b x by (simp add: zero_less_divide_iff)
  define d where "d = bitlen a - bitlen b"
  have lo: "2 powi (d - 1) \<le> x"
  proof -
    have "2 powi (d - 1) * of_int b \<le> 2 powi (d - 1) * (2 powi (bitlen b) :: rat)"
      using bitlen_rat_bounds(2) [OF b] by (simp add: less_imp_le)
    also have "\<dots> = 2 powi (bitlen a - 1)"
      by (simp add: d_def flip: power_int_add)
    also have "\<dots> \<le> of_int a" by (rule bitlen_rat_bounds(1) [OF a])
    finally show ?thesis using b by (simp add: x pos_le_divide_eq)
  qed
  have hi: "x < 2 powi (d + 1)"
  proof -
    have "of_int a < (2 powi (bitlen a) :: rat)" by (rule bitlen_rat_bounds(2) [OF a])
    also have "\<dots> = 2 powi (d + 1) * 2 powi (bitlen b - 1)"
      by (simp add: d_def flip: power_int_add)
    also have "\<dots> \<le> 2 powi (d + 1) * of_int b"
      using bitlen_rat_bounds(1) [OF b] by simp
    finally show ?thesis using b by (simp add: x pos_divide_less_eq)
  qed
  have e: "floor_log2 x = (if 2 powi d \<le> x then d else d - 1)"
    by (simp add: floor_log2_def q d_def Let_def)
  show "2 powi (floor_log2 x) \<le> x"
    using lo by (simp add: e)
  show "x < 2 powi (floor_log2 x + 1)"
    using hi by (simp add: e)
qed

lemma floor_log2_unique:
  assumes "0 < x" "2 powi e \<le> x" "x < 2 powi (e + 1)"
  shows "floor_log2 x = e"
proof (rule ccontr)
  assume ne: "floor_log2 x \<noteq> e"
  let ?f = "floor_log2 x"
  have f: "2 powi ?f \<le> x" "x < 2 powi (?f + 1)"
    using floor_log2_bounds [OF assms(1)] by auto
  show False
  proof (cases "?f < e")
    case True
    then have "(2 powi (?f + 1) :: rat) \<le> 2 powi e"
      by (intro power_int_increasing) auto
    then show False using f(2) assms(2) by linarith
  next
    case False
    then have "e + 1 \<le> ?f" using ne by linarith
    then have "(2 powi (e + 1) :: rat) \<le> 2 powi ?f"
      by (intro power_int_increasing) auto
    then show False using f(1) assms(3) by linarith
  qed
qed

subsection \<open>Rounding to float64\<close>

lemma rint_close: "\<bar>of_int (rint q) - q\<bar> \<le> 1 / 2"
proof -
  have "of_int \<lfloor>q\<rfloor> \<le> q" "q < of_int \<lfloor>q\<rfloor> + 1" by linarith+
  then show ?thesis
    unfolding rint_def Let_def by (auto simp: abs_le_iff)
qed

lemma rint_of_int [simp]: "rint (of_int z) = z"
  by (simp add: rint_def)

lemma floor_log2_ge:
  assumes "0 < x" "2 powi k \<le> x"
  shows "k \<le> floor_log2 x"
proof (rule ccontr)
  assume "\<not> k \<le> floor_log2 x"
  then have "floor_log2 x + 1 \<le> k" by linarith
  then have "(2 powi (floor_log2 x + 1) :: rat) \<le> 2 powi k"
    by (intro power_int_increasing) auto
  then show False
    using floor_log2_bounds(2) [OF assms(1)] assms(2) by linarith
qed

lemma floor_log2_le:
  assumes "0 < x" "x < 2 powi (k + 1)"
  shows "floor_log2 x \<le> k"
proof (rule ccontr)
  assume "\<not> floor_log2 x \<le> k"
  then have "k + 1 \<le> floor_log2 x" by linarith
  then have "(2 powi (k + 1) :: rat) \<le> 2 powi (floor_log2 x)"
    by (intro power_int_increasing) auto
  then show False
    using floor_log2_bounds(1) [OF assms(1)] assms(2) by linarith
qed

lemma pow2_add: "(2 powi (a + b) :: rat) = 2 powi a * 2 powi b"
  by (simp add: power_int_add)

lemma nearest_float64_unfold:
  assumes "x \<noteq> 0"
  shows "nearest_float64 x =
     of_int (rint (x / 2 powi (max (floor_log2 \<bar>x\<bar>) (- 1022) - 52)))
       * 2 powi (max (floor_log2 \<bar>x\<bar>) (- 1022) - 52)"
  using assms by (simp add: nearest_float64_def Let_def)

lemma nearest_float64_error:
  assumes "2 powi (- 1022) \<le> \<bar>x\<bar>"
  shows "\<bar>nearest_float64 x - x\<bar> \<le> \<bar>x\<bar> / 2 ^ 53"
proof -
  have pos: "0 < \<bar>x\<bar>"
    using assms zero_less_power_int [of "2 :: rat" "- 1022"] by linarith
  then have nz: "x \<noteq> 0" by auto
  define e where "e = floor_log2 \<bar>x\<bar>"
  have ge: "- 1022 \<le> e" unfolding e_def by (rule floor_log2_ge [OF pos assms])
  have lo: "2 powi e \<le> \<bar>x\<bar>" unfolding e_def by (rule floor_log2_bounds(1) [OF pos])
  define ulp :: rat where "ulp = 2 powi (e - 52)"
  have ulp: "0 < ulp" by (simp add: ulp_def)
  have r: "nearest_float64 x = of_int (rint (x / ulp)) * ulp"
    using ge by (simp add: nearest_float64_unfold [OF nz] ulp_def e_def max_def)
  have "\<bar>of_int (rint (x / ulp)) - x / ulp\<bar> \<le> 1 / 2" by (rule rint_close)
  then have "\<bar>of_int (rint (x / ulp)) - x / ulp\<bar> * ulp \<le> 1 / 2 * ulp"
    using ulp by (intro mult_right_mono) auto
  moreover have "\<bar>of_int (rint (x / ulp)) - x / ulp\<bar> * ulp = \<bar>nearest_float64 x - x\<bar>"
  proof -
    have "\<bar>of_int (rint (x / ulp)) - x / ulp\<bar> * ulp = \<bar>(of_int (rint (x / ulp)) - x / ulp) * ulp\<bar>"
      using ulp by (simp add: abs_mult)
    also have "(of_int (rint (x / ulp)) - x / ulp) * ulp = nearest_float64 x - x"
      using ulp by (simp add: r algebra_simps)
    finally show ?thesis .
  qed
  moreover have "1 / 2 * ulp = 2 powi e / 2 ^ 53"
  proof -
    have "(2 powi e :: rat) = 2 powi (e - 52) * 2 powi 52"
      using pow2_add [of "e - 52" 52] by simp
    then show ?thesis by (simp add: ulp_def)
  qed
  ultimately have "\<bar>nearest_float64 x - x\<bar> \<le> 2 powi e / 2 ^ 53" by simp
  also have "\<dots> \<le> \<bar>x\<bar> / 2 ^ 53" using lo by (simp add: divide_right_mono)
  finally show ?thesis .
qed

lemma nearest_float64_exact:
  assumes "z \<noteq> 0" "\<bar>z\<bar> < 2 ^ 53" "- 1074 \<le> j"
  shows "nearest_float64 (of_int z * 2 powi j) = of_int z * 2 powi j"
proof -
  let ?x = "of_int z * 2 powi j :: rat"
  have nz: "?x \<noteq> 0" using assms(1) by simp
  have ax: "\<bar>?x\<bar> = of_int \<bar>z\<bar> * 2 powi j"
    by (simp add: abs_mult)
  have zpos: "0 < (of_int \<bar>z\<bar> :: rat)" using assms(1) by simp
  define lz where "lz = floor_log2 (of_int \<bar>z\<bar>)"
  have lzb: "2 powi lz \<le> (of_int \<bar>z\<bar> :: rat)" "(of_int \<bar>z\<bar> :: rat) < 2 powi (lz + 1)"
    unfolding lz_def using floor_log2_bounds [OF zpos] by auto
  have "(of_int \<bar>z\<bar> :: rat) < 2 powi (52 + 1)"
    using assms(2) by (simp add: of_int_less_numeral_power_cancel_iff)
  then have lz52: "lz \<le> 52" unfolding lz_def by (rule floor_log2_le [OF zpos])
  have fl: "floor_log2 \<bar>?x\<bar> = lz + j"
  proof (rule floor_log2_unique)
    show "0 < \<bar>?x\<bar>" using nz by simp
    have "2 powi (lz + j) = (2 powi lz :: rat) * 2 powi j" by (simp add: power_int_add)
    also have "\<dots> \<le> of_int \<bar>z\<bar> * 2 powi j" using lzb(1) by (intro mult_right_mono) auto
    finally show "2 powi (lz + j) \<le> \<bar>?x\<bar>" by (simp add: ax)
    have "of_int \<bar>z\<bar> * 2 powi j < (2 powi (lz + 1) :: rat) * 2 powi j"
      using lzb(2) by (intro mult_strict_right_mono) auto
    also have "\<dots> = 2 powi (lz + j + 1)" by (simp flip: power_int_add add: add_ac)
    finally show "\<bar>?x\<bar> < 2 powi (lz + j + 1)" by (simp add: ax)
  qed
  define e where "e = max (lz + j) (- 1022)"
  define k where "k = j - (e - 52)"
  have k: "0 \<le> k" using lz52 assms(3) by (auto simp: k_def e_def max_def)
  have split: "(2 powi j :: rat) = 2 powi k * 2 powi (e - 52)"
    by (simp add: k_def flip: power_int_add)
  have "?x / 2 powi (e - 52) = of_int z * 2 powi k"
    by (simp add: split)
  also have "\<dots> = of_int (z * 2 ^ nat k)"
    using k by (simp add: power_int_def)
  finally have q: "?x / 2 powi (e - 52) = of_int (z * 2 ^ nat k)" .
  have "nearest_float64 ?x = of_int (rint (?x / 2 powi (e - 52))) * 2 powi (e - 52)"
    unfolding nearest_float64_unfold [OF nz] fl e_def ..
  also have "\<dots> = of_int (z * 2 ^ nat k) * 2 powi (e - 52)"
    unfolding q rint_of_int ..
  also have "\<dots> = of_int z * 2 powi k * 2 powi (e - 52)"
    using k by (simp add: power_int_def)
  also have "\<dots> = ?x" by (simp add: split)
  finally show ?thesis .
qed

lemma rint_mono_int:
  shows "of_int n \<le> y \<Longrightarrow> n \<le> rint y" and "y \<le> of_int n \<Longrightarrow> rint y \<le> n"
proof -
  have f: "of_int \<lfloor>y\<rfloor> \<le> y" "y < of_int \<lfloor>y\<rfloor> + 1" by linarith+
  show "n \<le> rint y" if "of_int n \<le> y"
  proof -
    have "n \<le> \<lfloor>y\<rfloor>" using that by (simp add: le_floor_iff)
    then show ?thesis by (auto simp: rint_def Let_def)
  qed
  show "rint y \<le> n" if "y \<le> of_int n"
  proof (cases "y = of_int n")
    case True
    then show ?thesis by simp
  next
    case False
    then have "y < of_int n" using that by simp
    then have fl: "\<lfloor>y\<rfloor> < n" by (simp add: floor_less_iff)
    then show ?thesis by (auto simp: rint_def Let_def)
  qed
qed

lemma nearest_float64_form:
  assumes "x \<noteq> 0"
  shows "\<exists>z j. nearest_float64 x = of_int z * 2 powi j \<and> \<bar>z\<bar> \<le> 2 ^ 53 \<and> - 1074 \<le> j"
proof -
  have pos: "0 < \<bar>x\<bar>" using assms by simp
  define e where "e = max (floor_log2 \<bar>x\<bar>) (- 1022)"
  define ulp :: rat where "ulp = 2 powi (e - 52)"
  have ulp: "0 < ulp" by (simp add: ulp_def)
  have r: "nearest_float64 x = of_int (rint (x / ulp)) * ulp"
    by (simp add: nearest_float64_unfold [OF assms] ulp_def e_def)
  have "\<bar>x\<bar> < 2 powi (floor_log2 \<bar>x\<bar> + 1)" by (rule floor_log2_bounds(2) [OF pos])
  also have "\<dots> \<le> 2 powi (e + 1)"
    by (intro power_int_increasing) (auto simp: e_def)
  also have "\<dots> = 2 powi 53 * ulp"
    using pow2_add [of 53 "e - 52"] by (simp add: ulp_def add.commute)
  finally have "\<bar>x\<bar> < 2 ^ 53 * ulp" by simp
  then have b: "\<bar>x / ulp\<bar> < 2 ^ 53" using ulp by (simp add: pos_divide_less_eq)
  have "x / ulp \<le> 2 ^ 53" "- (2 ^ 53) \<le> x / ulp"
    using b by linarith+
  then have "x / ulp \<le> of_int (2 ^ 53)" "of_int (- (2 ^ 53)) \<le> x / ulp"
    by simp_all
  then have "rint (x / ulp) \<le> 2 ^ 53" "- (2 ^ 53) \<le> rint (x / ulp)"
    using rint_mono_int by blast+
  then have "\<bar>rint (x / ulp)\<bar> \<le> 2 ^ 53" by (simp add: abs_le_iff)
  moreover have "- 1074 \<le> e - 52" by (simp add: e_def)
  ultimately show ?thesis using r unfolding ulp_def by blast
qed

lemma nearest_float64_idem: "nearest_float64 (nearest_float64 x) = nearest_float64 x"
proof (cases "x = 0")
  case True
  then show ?thesis by (simp add: nearest_float64_def)
next
  case False
  then obtain z j where r: "nearest_float64 x = of_int z * 2 powi j"
    and z: "\<bar>z\<bar> \<le> 2 ^ 53" and j: "- 1074 \<le> j"
    using nearest_float64_form by blast
  consider "z = 0" | "z \<noteq> 0" "\<bar>z\<bar> < 2 ^ 53" | "z = 2 ^ 53" | "z = - (2 ^ 53)"
    using z by (auto simp: abs_le_iff abs_less_iff) linarith
  then show ?thesis
  proof cases
    case 1
    then have z: "nearest_float64 x = 0" by (simp add: r)
    have "nearest_float64 0 = 0" by (simp add: nearest_float64_def)
    then show ?thesis unfolding z .
  next
    case 2
    then show ?thesis unfolding r using j by (intro nearest_float64_exact) auto
  next
    case 3
    have "(of_int z * 2 powi j :: rat) = of_int 1 * 2 powi (j + 53)"
      by (simp add: 3 power_int_add)
    moreover have "nearest_float64 (of_int 1 * 2 powi (j + 53)) = of_int 1 * 2 powi (j + 53)"
      using j by (intro nearest_float64_exact) auto
    ultimately show ?thesis unfolding r by simp
  next
    case 4
    have "(of_int z * 2 powi j :: rat) = of_int (- 1) * 2 powi (j + 53)"
      by (simp add: 4 power_int_add)
    moreover have "nearest_float64 (of_int (- 1) * 2 powi (j + 53)) = of_int (- 1) * 2 powi (j + 53)"
      using j by (intro nearest_float64_exact) auto
    ultimately show ?thesis unfolding r by simp
  qed
qed

lemma nearest_float64_half:
  assumes "2 powi (- 1021) \<le> \<bar>x\<bar>"
  shows "nearest_float64 (x / 2) = nearest_float64 x / 2"
proof -
  have pos: "0 < \<bar>x\<bar>"
    using assms zero_less_power_int [of "2 :: rat" "- 1021"] by linarith
  then have nz: "x \<noteq> 0" "x / 2 \<noteq> 0" by auto
  define e where "e = floor_log2 \<bar>x\<bar>"
  have ge: "- 1021 \<le> e" unfolding e_def by (rule floor_log2_ge [OF pos assms])
  have b: "2 powi e \<le> \<bar>x\<bar>" "\<bar>x\<bar> < 2 powi (e + 1)"
    unfolding e_def using floor_log2_bounds [OF pos] by auto
  have h: "floor_log2 \<bar>x / 2\<bar> = e - 1"
  proof (rule floor_log2_unique)
    show "0 < \<bar>x / 2\<bar>" using pos by simp
    have "(2 powi (e - 1) :: rat) = 2 powi e / 2"
      by (simp add: power_int_diff)
    then show "2 powi (e - 1) \<le> \<bar>x / 2\<bar>" using b(1) by simp
    have "(2 powi (e - 1 + 1) :: rat) = 2 powi (e + 1) / 2"
      by (simp add: power_int_add)
    then show "\<bar>x / 2\<bar> < 2 powi (e - 1 + 1)" using b(2) by simp
  qed
  have u: "(2 powi (e - 1 - 52) :: rat) = 2 powi (e - 52) / 2"
    by (simp add: power_int_diff)
  have m1: "max (e - 1) (- 1022) = e - 1" and m2: "max e (- 1022) = e"
    using ge by auto
  show ?thesis
    unfolding nearest_float64_unfold [OF nz(1)] nearest_float64_unfold [OF nz(2)] h
      e_def [symmetric] m1 m2 u
    by simp
qed

lemma nearest_float64_zero [simp]: "nearest_float64 0 = 0"
  by (simp add: nearest_float64_def)

lemma nearest_float64_int:
  assumes "\<bar>x\<bar> \<le> 2 ^ 53"
  shows "nearest_float64 (of_int x) = of_int x"
proof -
  consider "x = 0" | "x \<noteq> 0" "\<bar>x\<bar> < 2 ^ 53" | "x = 2 ^ 53" | "x = - (2 ^ 53)"
    using assms by (auto simp: abs_le_iff abs_less_iff) linarith
  then show ?thesis
  proof cases
    case 1
    then show ?thesis by simp
  next
    case 2
    then show ?thesis using nearest_float64_exact [of x 0] by simp
  next
    case 3
    then show ?thesis using nearest_float64_exact [of 1 53] by simp
  next
    case 4
    then show ?thesis using nearest_float64_exact [of "- 1" 53] by simp
  qed
qed

lemma int64_to_float_exact: "\<bar>x\<bar> \<le> 2 ^ 53 \<Longrightarrow> int64_to_float x = of_int x"
  by (simp add: int64_to_float_def nearest_float64_int)

lemma nearest_float64_bounds:
  assumes "2 powi (- 1022) \<le> x"
  shows "x * (1 - 1 / 2 ^ 53) \<le> nearest_float64 x" and "nearest_float64 x \<le> x * (1 + 1 / 2 ^ 53)"
proof -
  have pos: "0 < x"
    using assms zero_less_power_int [of "2 :: rat" "- 1022"] by linarith
  have "\<bar>nearest_float64 x - x\<bar> \<le> \<bar>x\<bar> / 2 ^ 53"
    using assms pos by (intro nearest_float64_error) simp
  then have d: "\<bar>nearest_float64 x - x\<bar> \<le> x / 2 ^ 53" using pos by simp
  define t where "t = x / 2 ^ 53"
  have t: "x * (1 - 1 / 2 ^ 53) = x - t" "x * (1 + 1 / 2 ^ 53) = x + t"
    by (simp_all add: t_def algebra_simps)
  show "x * (1 - 1 / 2 ^ 53) \<le> nearest_float64 x" "nearest_float64 x \<le> x * (1 + 1 / 2 ^ 53)"
    unfolding t using d unfolding t_def [symmetric] by linarith+
qed

lemma pow2_m1022_small: "(2 powi (- 1022) :: rat) \<le> 1 / 2 ^ 100"
proof -
  have "(2 powi (- 1022) :: rat) \<le> 2 powi (- 100)"
    by (intro power_int_increasing) auto
  then show ?thesis by (simp add: power_int_minus_divide)
qed

lemma to_float64_normal:
  assumes "1 / 2 ^ 100 \<le> \<bar>x\<bar>" "\<bar>x\<bar> \<le> 2 ^ 100"
  shows "to_float64 x = Fin (nearest_float64 x)"
    and "\<bar>nearest_float64 x - x\<bar> \<le> \<bar>x\<bar> / 2 ^ 53"
    and "nearest_float64 x \<noteq> 0"
proof -
  have n: "2 powi (- 1022) \<le> \<bar>x\<bar>" using assms(1) pow2_m1022_small by linarith
  show e: "\<bar>nearest_float64 x - x\<bar> \<le> \<bar>x\<bar> / 2 ^ 53" by (rule nearest_float64_error [OF n])
  have "(0 :: rat) < 1 / 2 ^ 100" by simp
  then have pos: "0 < \<bar>x\<bar>" using assms(1) by linarith
  have "\<bar>x\<bar> / 2 ^ 53 < \<bar>x\<bar>" using pos by (simp add: field_simps)
  then show nz: "nearest_float64 x \<noteq> 0" using e by auto
  have "\<bar>nearest_float64 x\<bar> \<le> \<bar>x\<bar> + \<bar>x\<bar> / 2 ^ 53" using e by linarith
  also have "\<dots> \<le> 2 * \<bar>x\<bar>" using pos by (simp add: field_simps)
  also have "\<dots> \<le> 2 * 2 ^ 100" using assms(2) by simp
  also have "\<dots> < (2 ^ 1024 :: rat)" by simp
  finally have "\<not> 2 ^ 1024 \<le> \<bar>nearest_float64 x\<bar>" by simp
  then show "to_float64 x = Fin (nearest_float64 x)"
    using nz by (simp add: to_float64_def Let_def)
qed

lemma to_float64_zero [simp]: "to_float64 0 = Fin 0"
  by (simp add: to_float64_def)

lemma wrap64_id: "is_int64 x \<Longrightarrow> wrap64 x = x"
  by (simp add: wrap64_def is_int64_def)

subsection \<open>The accuracy computation\<close>



lemma to_float64_hundred: "to_float64 (10 ^ 2) = Fin 100"
proof -
  have "to_float64 100 = Fin (nearest_float64 100)"
    by (rule to_float64_normal(1)) simp_all
  moreover have "nearest_float64 (of_int 100) = of_int 100"
    by (rule nearest_float64_int) simp
  ultimately show ?thesis by simp
qed

lemma to_float64_hundred': "to_float64 100 = Fin 100"
  using to_float64_hundred by simp

lemma round_ndigits_2: "round_ndigits x 2 = fdiv_pos (frint (fmul_pos x 100)) 100"
  by (simp add: round_ndigits_def to_float64_hundred')

lemma int64_to_float_zero [simp]: "int64_to_float 0 = 0"
  by (simp add: int64_to_float_def)

lemma rint_zero [simp]: "rint 0 = 0"
  by (simp add: rint_def)



lemma nearest_float64_eval:
  assumes "0 < x" "2 powi e \<le> x" "x < 2 powi (e + 1)" "- 1022 \<le> e"
  shows "nearest_float64 x = of_int (rint (x / 2 powi (e - 52))) * 2 powi (e - 52)"
proof -
  have nz: "x \<noteq> 0" using assms(1) by simp
  have "floor_log2 \<bar>x\<bar> = e"
    using assms(1-3) by (intro floor_log2_unique) auto
  then show ?thesis
    using assms(4) by (simp add: nearest_float64_unfold [OF nz] max_def)
qed

lemma to_float64_int:
  assumes "\<bar>x\<bar> \<le> 2 ^ 53"
  shows "to_float64 (of_int x) = Fin (of_int x)"
proof -
  have n: "nearest_float64 (of_int x) = of_int x" by (rule nearest_float64_int [OF assms])
  have "(of_int \<bar>x\<bar> :: rat) \<le> of_int (2 ^ 53)" using assms by (simp only: of_int_le_iff)
  then have "\<bar>of_int x :: rat\<bar> \<le> 2 ^ 53" by simp
  moreover have "(2 ^ 53 :: rat) < 2 ^ 1024" by simp
  ultimately have "\<not> 2 ^ 1024 \<le> \<bar>of_int x :: rat\<bar>" by linarith
  then show ?thesis by (simp add: to_float64_def n)
qed

lemma to_float64_frac:
  assumes "z \<noteq> 0" "\<bar>z\<bar> < 2 ^ 53" "k \<le> 1074"
  shows "to_float64 (of_int z / 2 ^ k) = Fin (of_int z / 2 ^ k)"
proof -
  have x: "(of_int z / 2 ^ k :: rat) = of_int z * 2 powi (- int k)"
    by (simp add: power_int_minus_divide)
  have n: "nearest_float64 (of_int z / 2 ^ k) = of_int z / 2 ^ k"
    unfolding x using assms by (intro nearest_float64_exact) auto
  have "(of_int \<bar>z\<bar> :: rat) < of_int (2 ^ 53)" using assms(2) by (simp only: of_int_less_iff)
  then have "\<bar>of_int z :: rat\<bar> < 2 ^ 53" by simp
  moreover have "\<bar>of_int z / 2 ^ k :: rat\<bar> \<le> \<bar>of_int z\<bar>"
    by (simp add: abs_divide divide_le_eq_1_pos mult_le_cancel_left1 field_simps)
  moreover have "(2 ^ 53 :: rat) < 2 ^ 1024" by simp
  ultimately have "\<not> 2 ^ 1024 \<le> \<bar>of_int z / 2 ^ k :: rat\<bar>" by linarith
  moreover have "(of_int z / 2 ^ k :: rat) \<noteq> 0" using assms(1) by simp
  ultimately show ?thesis by (simp add: to_float64_def n)
qed

lemma true_divide_exact_args:
  assumes "\<bar>x\<bar> \<le> 2 ^ 53" "\<bar>d\<bar> \<le> 2 ^ 53" "0 < d"
  shows "true_divide x d = (if x = 0 then Fin 0 else to_float64 (of_int x / of_int d))"
  using assms by (simp add: true_divide_def int64_to_float_exact Let_def)

lemma true_divide_by_zero:
  "true_divide x 0 =
     (if int64_to_float x = 0 then NaN else if 0 < int64_to_float x then PInf else NInf)"
  by (simp add: true_divide_def Let_def)

lemma int64_to_float_pos:
  assumes "0 < x"
  shows "0 < int64_to_float x"
proof -
  have one: "(1 :: rat) \<le> of_int x" using assms(1) by simp
  have "(2 powi (- 1022) :: rat) \<le> 2 powi 0"
    by (intro power_int_increasing) auto
  then have "2 powi (- 1022) \<le> (of_int x :: rat)" using one by simp
  then have "of_int x * (1 - 1 / 2 ^ 53) \<le> nearest_float64 (of_int x :: rat)"
    by (rule nearest_float64_bounds(1))
  moreover have "(0 :: rat) < of_int x * (1 - 1 / 2 ^ 53)"
    using one by (intro mult_pos_pos) auto
  ultimately show ?thesis by (simp add: int64_to_float_def)
qed

lemma round_ndigits_2_eval:
  assumes td: "true_divide c n = Fin q1"
    and q2: "nearest_float64 (q1 * 100) = q2"
    and rng: "1 / 2 ^ 100 \<le> \<bar>q1 * 100\<bar>" "\<bar>q1 * 100\<bar> \<le> 2 ^ 100"
    and pos: "0 < q2"
    and k: "rint q2 = k"
  shows "round_ndigits (true_divide c n) 2 = to_float64 (of_int k / 100)"
proof -
  have "to_float64 (q1 * 100) = Fin q2"
    using to_float64_normal(1) [OF rng] q2 by simp
  then show ?thesis
    using pos k by (simp add: round_ndigits_2 td fmul_pos_def frint_def fdiv_pos_def)
qed

lemma pow2_neg_53: "(2 powi (- 53) :: rat) = 1 / 2 ^ 53"
  by (simp add: power_int_minus_divide)

lemma pow2_neg_47: "(2 powi (- 47) :: rat) = 1 / 2 ^ 47"
  by (simp add: power_int_minus_divide)

lemma pow2_neg_1: "(2 powi (- 1) :: rat) = 1 / 2"
  by (simp add: power_int_minus_divide)

lemma accuracy_23_of_40:
  "round_ndigits (true_divide 23 40) 2 = to_float64 (57 / 100)"
proof -
  have r1: "rint (23 / 40 * 2 ^ 53) = 5179139571476070" by code_simp
  have n1: "nearest_float64 (23 / 40) = 5179139571476070 / 2 ^ 53"
    using nearest_float64_eval [of "23 / 40" "- 1"] r1 by (simp add: pow2_neg_53 pow2_neg_1)
  have td: "true_divide 23 40 = Fin (5179139571476070 / 2 ^ 53)"
    using true_divide_exact_args [of 23 40] to_float64_normal(1) [of "23 / 40"] n1 by simp
  have r2: "rint (5179139571476070 / 2 ^ 53 * 100 * 2 ^ 47) = 8092405580431359" by code_simp
  have n2: "nearest_float64 (5179139571476070 / 2 ^ 53 * 100) = 8092405580431359 / 2 ^ 47"
    using nearest_float64_eval [of "5179139571476070 / 2 ^ 53 * 100" 5] r2
    by (simp add: pow2_neg_47)
  have r3: "rint (8092405580431359 / 2 ^ 47) = 57" by code_simp
  show ?thesis
    using round_ndigits_2_eval [OF td n2 _ _ _ r3] by simp
qed

lemma accuracy_109_of_200:
  "round_ndigits (true_divide 109 200) 2 = to_float64 (55 / 100)"
proof -
  have r1: "rint (109 / 200 * 2 ^ 53) = 4908923593833841" by code_simp
  have n1: "nearest_float64 (109 / 200) = 4908923593833841 / 2 ^ 53"
    using nearest_float64_eval [of "109 / 200" "- 1"] r1 by (simp add: pow2_neg_53 pow2_neg_1)
  have td: "true_divide 109 200 = Fin (4908923593833841 / 2 ^ 53)"
    using true_divide_exact_args [of 109 200] to_float64_normal(1) [of "109 / 200"] n1 by simp
  have r2: "rint (4908923593833841 / 2 ^ 53 * 100 * 2 ^ 47) = 7670193115365377" by code_simp
  have n2: "nearest_float64 (4908923593833841 / 2 ^ 53 * 100) = 7670193115365377 / 2 ^ 47"
    using nearest_float64_eval [of "4908923593833841 / 2 ^ 53 * 100" 5] r2
    by (simp add: pow2_neg_47)
  have r3: "rint (7670193115365377 / 2 ^ 47) = 55" by code_simp
  show ?thesis
    using round_ndigits_2_eval [OF td n2 _ _ _ r3] by simp
qed

lemma rint_numeral [simp]: "rint (numeral w) = numeral w"
  by (simp add: rint_def)

lemma to_float64_half: "to_float64 (1 / 2) = Fin (1 / 2)"
  using to_float64_frac [of 1 1] by simp

lemma to_float64_fifty: "to_float64 50 = Fin 50"
  using to_float64_int [of 50] by simp

subsection \<open>The recorded calls\<close>

lemma load_alloc_float: "load (fst (alloc_float s m)) (snd (alloc_float s m)) = map (map FloatV) m"
  by (simp add: alloc_float_def load_def)

lemma plot_unfold:
  "plot_confusion_matrix s cm classes nf title cmap =
     (let d = displayed (int_arrays s cm) nf;
          s1 = (if nf then fst (alloc_float s (normalize_rows (int_arrays s cm))) else s);
          pre = [Figure 8 8, Imshow (map (map IntV) (int_arrays s cm)) ''nearest'' cmap,
                 Title title, Colorbar,
                 Xticks [0..<length classes] classes 45, Yticks [0..<length classes] classes]
      in case amax d of
           Inl e \<Rightarrow> (s1, pre, Some e)
         | Inr mx \<Rightarrow>
             (s1,
              pre @ map (\<lambda>(i, j). Text j i (d ! i ! j) ''center''
                           (if exceeds (d ! i ! j) (halve mx) then White else Black))
                        (List.product [0..<shape0 d] [0..<shape1 d])
                  @ [TightLayout, Ylabel ''True label'', Xlabel ''Predicted label'', Show],
              None))"
proof (cases nf)
  case True
  then show ?thesis
    by (simp add: plot_confusion_matrix_def Let_def displayed_def arange_def
        split_beta load_alloc_float load_def [of s] split: sum.splits)
next
  case False
  then show ?thesis
    by (simp add: plot_confusion_matrix_def Let_def displayed_def arange_def load_def
        split: sum.splits)
qed

lemma shape0_displayed: "shape0 (displayed m nf) = shape0 m"
  by (simp add: displayed_def shape0_def normalize_rows_def row_sums_def)

lemma shape1_displayed: "shape1 (displayed m nf) = shape1 m"
  by (cases m) (simp_all add: displayed_def shape1_def normalize_rows_def row_sums_def)

lemma displayed_nth:
  assumes "i < length m" "j < length (m ! i)"
  shows "displayed m nf ! i ! j =
     (if nf then FloatV (true_divide (m ! i ! j) (row_sum (m ! i))) else IntV (m ! i ! j))"
  using assms by (simp add: displayed_def normalize_rows_def row_sums_def)

lemma filter_eq_distinct:
  "distinct xs \<Longrightarrow> filter (\<lambda>y. y = x) xs = (if x \<in> set xs then [x] else [])"
  by (induction xs) auto

lemma annotations_at_append:
  "annotations_at (xs @ ys) x y = annotations_at xs x y @ annotations_at ys x y"
  by (simp add: annotations_at_def)

lemma annotations_at_texts:
  assumes "i < R" "j < C"
  shows "annotations_at (map (\<lambda>(i, j). Text j i (f i j) h (g i j)) (List.product [0..<R] [0..<C])) j i
         = [Text j i (f i j) h (g i j)]"
proof -
  have "annotations_at (map (\<lambda>(i, j). Text j i (f i j) h (g i j)) (List.product [0..<R] [0..<C])) j i
        = map (\<lambda>(i, j). Text j i (f i j) h (g i j))
            (filter (\<lambda>p. p = (i, j)) (List.product [0..<R] [0..<C]))"
    by (simp add: annotations_at_def filter_map comp_def case_prod_unfold prod_eq_iff conj_commute)
  also have "filter (\<lambda>p. p = (i, j)) (List.product [0..<R] [0..<C]) = [(i, j)]"
    using assms by (simp add: filter_eq_distinct distinct_product)
  finally show ?thesis by simp
qed

lemma amax_nonempty:
  assumes "r \<in> set m" "r \<noteq> []"
  shows "\<exists>mx. amax m = Inr mx"
proof -
  have "concat m \<noteq> []" using assms by auto
  then show ?thesis by (auto simp: amax_def split: list.splits)
qed

lemma is_matrix_row: "is_matrix m \<Longrightarrow> i < length m \<Longrightarrow> length (m ! i) = shape1 m"
  by (simp add: is_matrix_def list_all_length)

lemma displayed_row_length: "i < length m \<Longrightarrow> length (displayed m nf ! i) = length (m ! i)"
  by (simp add: displayed_def normalize_rows_def row_sums_def)

lemma length_displayed: "length (displayed m nf) = length m"
  by (simp add: displayed_def normalize_rows_def row_sums_def)

lemma amax_displayed:
  assumes "is_matrix m" "i < shape0 m" "j < shape1 m"
  shows "\<exists>mx. amax (displayed m nf) = Inr mx"
proof -
  have i: "i < length m" using assms(2) by (simp add: shape0_def)
  have "displayed m nf ! i \<in> set (displayed m nf)"
    using i by (simp add: length_displayed)
  moreover have "displayed m nf ! i \<noteq> []"
    using displayed_row_length [OF i, of nf] is_matrix_row [OF assms(1) i] assms(3) by auto
  ultimately show ?thesis by (rule amax_nonempty)
qed

lemma plot_calls_ok:
  assumes "amax (displayed (int_arrays s cm) nf) = Inr mx"
  shows "fst (snd (plot_confusion_matrix s cm classes nf title cmap)) =
     [Figure 8 8, Imshow (map (map IntV) (int_arrays s cm)) ''nearest'' cmap,
      Title title, Colorbar,
      Xticks [0..<length classes] classes 45, Yticks [0..<length classes] classes]
     @ map (\<lambda>(i, j). Text j i (displayed (int_arrays s cm) nf ! i ! j) ''center''
              (if exceeds (displayed (int_arrays s cm) nf ! i ! j) (halve mx) then White else Black))
           (List.product [0..<shape0 (int_arrays s cm)] [0..<shape1 (int_arrays s cm)])
     @ [TightLayout, Ylabel ''True label'', Xlabel ''Predicted label'', Show]"
  by (simp add: plot_unfold Let_def assms shape0_displayed shape1_displayed)

lemma calls_annotations:
  assumes "i < shape0 (int_arrays s cm)" "j < shape1 (int_arrays s cm)"
    and mx: "amax (displayed (int_arrays s cm) nf) = Inr mx"
  shows "annotations_at (fst (snd (plot_confusion_matrix s cm classes nf title cmap))) j i
         = [Text j i (displayed (int_arrays s cm) nf ! i ! j) ''center''
              (if exceeds (displayed (int_arrays s cm) nf ! i ! j) (halve mx) then White else Black)]"
proof -
  let ?d = "displayed (int_arrays s cm) nf"
  let ?pre = "[Figure 8 8, Imshow (map (map IntV) (int_arrays s cm)) ''nearest'' cmap,
      Title title, Colorbar,
      Xticks [0..<length classes] classes 45, Yticks [0..<length classes] classes]"
  let ?post = "[TightLayout, Ylabel ''True label'', Xlabel ''Predicted label'', Show] :: 'a plt_call list"
  have texts: "annotations_at (map (\<lambda>(i, j). Text j i (?d ! i ! j) ''center''
                           (if exceeds (?d ! i ! j) (halve mx) then White else Black))
                        (List.product [0..<shape0 (int_arrays s cm)] [0..<shape1 (int_arrays s cm)])) j i
        = [Text j i (?d ! i ! j) ''center'' (if exceeds (?d ! i ! j) (halve mx) then White else Black)]"
    using assms(1,2) by (rule annotations_at_texts)
  have pre: "annotations_at ?pre j i = []" by (simp add: annotations_at_def)
  have post: "annotations_at ?post j i = []" by (simp add: annotations_at_def)
  show ?thesis
    unfolding plot_calls_ok [OF mx] annotations_at_append texts pre post by simp
qed

lemma example_store_simps:
  "int_arrays example_store 0 = [[1, 3], [20, 20]]"
  "int_arrays example_store (Suc 0) = [[0, 0], [1, 3]]"
  "int_arrays example_store 2 = []"
  "int_arrays example_store 3 = [[9007199254740993, 18014398509481984]]"
  "int_arrays example_store 4 = [[9223372036854775807, 9223372036854775807, 2]]"
  "next_float example_store = 0"
  by (simp_all add: example_store_def)

lemma normalize_rows_alt:
  "normalize_rows m = map (\<lambda>r. map (\<lambda>x. true_divide x (row_sum r)) r) m"
  by (simp add: normalize_rows_def row_sums_def zip_map2 zip_same_conv_map comp_def)

lemma tick_calls_texts: "tick_calls (map (\<lambda>(i, j). Text j i (f i j) h (g i j)) ps) = []"
  by (induction ps) (auto simp: tick_calls_def)

lemma image_calls_texts: "image_calls (map (\<lambda>(i, j). Text j i (f i j) h (g i j)) ps) = []"
  by (induction ps) (auto simp: image_calls_def)

lemma tick_calls_append: "tick_calls (xs @ ys) = tick_calls xs @ tick_calls ys"
  by (simp add: tick_calls_def)

lemma image_calls_append: "image_calls (xs @ ys) = image_calls xs @ image_calls ys"
  by (simp add: image_calls_def)

lemma plot_calls_error:
  assumes "amax (displayed (int_arrays s cm) nf) = Inl e"
  shows "fst (snd (plot_confusion_matrix s cm classes nf title cmap)) =
     [Figure 8 8, Imshow (map (map IntV) (int_arrays s cm)) ''nearest'' cmap,
      Title title, Colorbar,
      Xticks [0..<length classes] classes 45, Yticks [0..<length classes] classes]"
  by (simp add: plot_unfold Let_def assms)

lemma plot_outcome:
  "snd (snd (plot_confusion_matrix s cm classes nf title cmap)) =
     (case amax (displayed (int_arrays s cm) nf) of Inl e \<Rightarrow> Some e | Inr _ \<Rightarrow> None)"
  by (simp add: plot_unfold Let_def split: sum.splits)

lemma plot_store:
  "fst (plot_confusion_matrix s cm classes nf title cmap) =
     (if nf then fst (alloc_float s (normalize_rows (int_arrays s cm))) else s)"
  by (simp add: plot_unfold Let_def split: sum.splits)

lemma amax_error: "amax d = Inl e \<Longrightarrow> e = LibraryException"
  by (auto simp: amax_def split: list.splits)

lemma image_of_raw_counts:
  "image_calls (fst (snd (plot_confusion_matrix s cm classes normalize_flag title cmap)))
     = [Imshow (map (map IntV) (int_arrays s cm)) ''nearest'' cmap]"
proof (cases "amax (displayed (int_arrays s cm) normalize_flag)")
  case (Inl e)
  show ?thesis
    unfolding plot_calls_error [OF Inl] by (simp add: image_calls_def)
next
  case (Inr mx)
  show ?thesis
    unfolding plot_calls_ok [OF Inr] image_calls_append image_calls_texts
    by (simp add: image_calls_def)
qed

lemma example_row_sums:
  "row_sum [1, 3] = 4" "row_sum [20, 20] = 40" "row_sum [0, 0] = 0"
  "row_sum [9223372036854775807, 9223372036854775807, 2] = 0"
  by (simp_all add: row_sum_def wrap64_def)

lemma example_quotients:
  "true_divide 1 4 = Fin (1 / 4)" "true_divide 3 4 = Fin (3 / 4)"
  "true_divide 20 40 = Fin (1 / 2)"
  using true_divide_exact_args [of 1 4] true_divide_exact_args [of 3 4]
    true_divide_exact_args [of 20 40]
    to_float64_frac [of 1 2] to_float64_frac [of 3 2] to_float64_frac [of 1 1]
  by simp_all

subsection \<open>Row normalisation\<close>

lemma sum_list_zeros: "\<forall>x\<in>set r. x = (0::int) \<Longrightarrow> sum_list r = 0"
  by (induction r) auto

lemma int64_to_float_bounds:
  assumes "x \<noteq> 0" "\<bar>x\<bar> \<le> 2 ^ 63"
  shows "1 / 2 \<le> \<bar>int64_to_float x\<bar>" and "\<bar>int64_to_float x\<bar> \<le> 2 ^ 64"
proof -
  let ?x = "of_int x :: rat"
  have one: "1 \<le> \<bar>?x\<bar>" using assms(1) by (simp flip: of_int_abs)
  have "(of_int \<bar>x\<bar> :: rat) \<le> of_int (2 ^ 63)" using assms(2) by (simp only: of_int_le_iff)
  then have up: "\<bar>?x\<bar> \<le> 2 ^ 63" by simp
  have "(2 powi (- 1022) :: rat) \<le> 2 powi 0"
    by (intro power_int_increasing) auto
  then have "2 powi (- 1022) \<le> \<bar>?x\<bar>" using one by simp
  then have e: "\<bar>nearest_float64 ?x - ?x\<bar> \<le> \<bar>?x\<bar> / 2 ^ 53"
    by (rule nearest_float64_error)
  have "\<bar>?x\<bar> / 2 ^ 53 \<le> \<bar>?x\<bar> / 2" by (simp add: field_simps)
  then have h: "\<bar>nearest_float64 ?x - ?x\<bar> \<le> \<bar>?x\<bar> / 2" using e by linarith
  show "1 / 2 \<le> \<bar>int64_to_float x\<bar>"
    unfolding int64_to_float_def using h one by linarith
  have "(2 ^ 63 :: rat) + 2 ^ 63 / 2 \<le> 2 ^ 64" by simp
  then show "\<bar>int64_to_float x\<bar> \<le> 2 ^ 64"
    unfolding int64_to_float_def using h up by linarith
qed

lemma true_divide_finite:
  assumes "is_int64 x" "0 < d" "d < 2 ^ 63"
  shows "\<exists>q. true_divide x d = Fin q"
proof -
  define a where "a = int64_to_float x"
  define b where "b = int64_to_float d"
  have b: "0 < b" unfolding b_def by (rule int64_to_float_pos [OF assms(2)])
  have bb: "1 / 2 \<le> b" "b \<le> 2 ^ 64"
    using int64_to_float_bounds [of d] assms(2,3) b unfolding b_def by auto
  show ?thesis
  proof (cases "a = 0")
    case True
    then show ?thesis using b by (simp add: true_divide_def Let_def a_def [symmetric] b_def [symmetric])
  next
    case False
    then have x: "x \<noteq> 0" unfolding a_def by auto
    have "\<bar>x\<bar> \<le> 2 ^ 63" using assms(1) by (auto simp: is_int64_def)
    then have ab: "1 / 2 \<le> \<bar>a\<bar>" "\<bar>a\<bar> \<le> 2 ^ 64"
      unfolding a_def using int64_to_float_bounds [OF x] by auto
    have "\<bar>a\<bar> / b \<le> 2 ^ 64 / (1 / 2)"
      using ab(2) bb(1) by (intro frac_le) auto
    then have up: "\<bar>a / b\<bar> \<le> 2 ^ 100" using b by (simp add: abs_divide)
    have "(1 / 2) / 2 ^ 64 \<le> \<bar>a\<bar> / b"
      using ab(1) bb(2) b by (intro frac_le) auto
    then have lo: "1 / 2 ^ 100 \<le> \<bar>a / b\<bar>" using b by (simp add: abs_divide)
    have "to_float64 (a / b) = Fin (nearest_float64 (a / b))"
      by (rule to_float64_normal(1) [OF lo up])
    then show ?thesis
      using False b by (simp add: true_divide_def Let_def a_def [symmetric] b_def [symmetric])
  qed
qed

lemma row_sum_exact: "- (2 ^ 63) \<le> sum_list r \<Longrightarrow> sum_list r < 2 ^ 63 \<Longrightarrow> row_sum r = sum_list r"
  by (simp add: row_sum_def wrap64_id is_int64_def)

lemma normalize_rows_finite:
  assumes "\<forall>r\<in>set m. (\<forall>x\<in>set r. is_int64 x) \<and> 0 < sum_list r \<and> sum_list r < 2 ^ 63"
  shows "0 \<notin> set (row_sums m) \<and> (\<forall>v\<in>set (concat (normalize_rows m)). \<exists>q. v = Fin q)"
proof -
  have rs: "row_sum r = sum_list r" if "r \<in> set m" for r
    using assms that by (intro row_sum_exact) auto
  have "0 \<notin> set (row_sums m)"
  proof
    assume "0 \<in> set (row_sums m)"
    then obtain r where "r \<in> set m" "row_sum r = 0" by (auto simp: row_sums_def)
    then show False using rs assms by fastforce
  qed
  moreover have "\<exists>q. v = Fin q" if "v \<in> set (concat (normalize_rows m))" for v
  proof -
    have "\<exists>r\<in>set m. \<exists>x\<in>set r. v = true_divide x (row_sum r)"
      using that by (auto simp: normalize_rows_alt)
    then obtain r x where r: "r \<in> set m" and x: "x \<in> set r" and v: "v = true_divide x (row_sum r)"
      by blast
    have "is_int64 x" "0 < sum_list r" "sum_list r < 2 ^ 63" using assms r x by auto
    then show ?thesis unfolding v rs [OF r] by (intro true_divide_finite)
  qed
  ultimately show ?thesis by blast
qed

lemma true_divide_zero_zero: "true_divide 0 0 = NaN"
  by (simp add: true_divide_def)

lemma normalize_rows_zero_row:
  assumes "r \<in> set m" "r \<noteq> []" "\<forall>x\<in>set r. x = 0"
  shows "0 \<in> set (row_sums m)" and "NaN \<in> set (concat (normalize_rows m))"
    and "\<exists>mx. amax (displayed m True) = Inr mx"
proof -
  have "sum_list r = 0" using assms(3) by (rule sum_list_zeros)
  then have z: "row_sum r = 0" by (simp add: row_sum_def wrap64_def)
  show "0 \<in> set (row_sums m)"
    using assms(1) z by (force simp: row_sums_def)
  obtain x where x: "x \<in> set r" using assms(2) by (cases r) auto
  then have "x = 0" using assms(3) by blast
  then have "true_divide x (row_sum r) = NaN" by (simp add: true_divide_zero_zero z)
  then have "NaN \<in> set (map (\<lambda>x. true_divide x (row_sum r)) r)"
    using x by force
  then show "NaN \<in> set (concat (normalize_rows m))"
    using assms(1) by (auto simp: normalize_rows_alt)
  have "map FloatV (map (\<lambda>x. true_divide x (row_sum r)) r) \<in> set (displayed m True)"
    using assms(1) by (simp add: displayed_def normalize_rows_alt)
  moreover have "map FloatV (map (\<lambda>x. true_divide x (row_sum r)) r) \<noteq> []"
    using assms(2) by simp
  ultimately show "\<exists>mx. amax (displayed m True) = Inr mx"
    by (rule amax_nonempty)
qed

subsection \<open>The colour threshold\<close>

lemma pow2_m1021_small: "(2 powi (- 1021) :: rat) \<le> 1 / 2 ^ 100"
proof -
  have "(2 powi (- 1021) :: rat) \<le> 2 powi (- 100)"
    by (intro power_int_increasing) auto
  then show ?thesis by (simp add: power_int_minus_divide)
qed

lemma unit_ratio_bounds:
  fixes x s :: int
  assumes "0 \<le> x" "x \<le> s" "0 < s" "s \<le> 2 ^ 25"
  shows "0 \<le> (of_int x / of_int s :: rat)" and "(of_int x / of_int s :: rat) \<le> 1"
    and "0 < x \<Longrightarrow> 1 / 2 ^ 25 \<le> (of_int x / of_int s :: rat)"
proof -
  have s: "0 < (of_int s :: rat)" using assms(3) by simp
  show "0 \<le> (of_int x / of_int s :: rat)" using assms(1) s by simp
  show "(of_int x / of_int s :: rat) \<le> 1" using assms(2) s by simp
  show "1 / 2 ^ 25 \<le> (of_int x / of_int s :: rat)" if "0 < x"
  proof -
    have "(1 :: rat) \<le> of_int x" using that by simp
    moreover have "(of_int s :: rat) \<le> of_int (2 ^ 25)" using assms(4) by (simp only: of_int_le_iff)
    then have "(of_int s :: rat) \<le> 2 ^ 25" by simp
    ultimately show ?thesis using s by (intro frac_le) auto
  qed
qed

lemma unit_ratio_rounding:
  fixes x s :: int
  assumes "0 \<le> x" "x \<le> s" "0 < s" "s \<le> 2 ^ 25"
  shows "\<bar>nearest_float64 (of_int x / of_int s) - of_int x / of_int s\<bar> \<le> 1 / 2 ^ 53"
    and "true_divide x s = Fin (nearest_float64 (of_int x / of_int s))"
proof -
  let ?q = "of_int x / of_int s :: rat"
  have small: "\<bar>x\<bar> \<le> 2 ^ 53" "\<bar>s\<bar> \<le> 2 ^ 53" using assms by auto
  have td: "true_divide x s = (if x = 0 then Fin 0 else to_float64 ?q)"
    by (rule true_divide_exact_args [OF small assms(3)])
  show "\<bar>nearest_float64 ?q - ?q\<bar> \<le> 1 / 2 ^ 53"
  proof (cases "x = 0")
    case True
    then show ?thesis by simp
  next
    case False
    then have "0 < x" using assms(1) by simp
    then have lo: "1 / 2 ^ 25 \<le> ?q" by (rule unit_ratio_bounds(3) [OF assms])
    have hi: "?q \<le> 1" by (rule unit_ratio_bounds(2) [OF assms])
    have "(1 / 2 ^ 100 :: rat) \<le> 1 / 2 ^ 25" by simp
    then have "2 powi (- 1022) \<le> \<bar>?q\<bar>" using lo pow2_m1022_small by linarith
    then have "\<bar>nearest_float64 ?q - ?q\<bar> \<le> \<bar>?q\<bar> / 2 ^ 53" by (rule nearest_float64_error)
    moreover have "\<bar>?q\<bar> / 2 ^ 53 \<le> 1 / 2 ^ 53"
      using hi lo by (intro divide_right_mono) auto
    ultimately show ?thesis by linarith
  qed
  show "true_divide x s = Fin (nearest_float64 ?q)"
  proof (cases "x = 0")
    case True
    then show ?thesis using td by simp
  next
    case False
    then have "0 < x" using assms(1) by simp
    then have lo: "1 / 2 ^ 25 \<le> ?q" by (rule unit_ratio_bounds(3) [OF assms])
    have hi: "?q \<le> 1" by (rule unit_ratio_bounds(2) [OF assms])
    have "(1 / 2 ^ 100 :: rat) \<le> 1 / 2 ^ 25" "(0 :: rat) < 1 / 2 ^ 25" "(1 :: rat) \<le> 2 ^ 100"
      by simp_all
    then have "1 / 2 ^ 100 \<le> \<bar>?q\<bar>" "\<bar>?q\<bar> \<le> 2 ^ 100" using lo hi by linarith+
    then have "to_float64 ?q = Fin (nearest_float64 ?q)" by (rule to_float64_normal(1))
    then show ?thesis using False by (simp add: td)
  qed
qed

lemma unit_ratio_separated:
  fixes x s X S :: int
  assumes "0 < s" "s \<le> 2 ^ 25" "0 < S" "S \<le> 2 ^ 25"
    and ne: "(of_int x / of_int s :: rat) \<noteq> of_int X / of_int S / 2"
  shows "1 / 2 ^ 51 \<le> \<bar>of_int x / of_int s - of_int X / of_int S / 2 :: rat\<bar>"
proof -
  define D where "D = 2 * x * S - X * s"
  define N where "N = 2 * s * S"
  have N: "0 < N" using assms(1,3) by (simp add: N_def)
  have "s * S \<le> 2 ^ 25 * 2 ^ 25"
    using assms by (intro mult_mono) auto
  then have N51: "N \<le> 2 ^ 51" by (simp add: N_def ac_simps)
  have eq: "(of_int x / of_int s - of_int X / of_int S / 2 :: rat) = of_int D / of_int N"
    using assms(1,3) by (simp add: D_def N_def field_simps)
  have "D \<noteq> 0"
  proof
    assume "D = 0"
    then have "(of_int D / of_int N :: rat) = 0" by simp
    then have "(of_int x / of_int s - of_int X / of_int S / 2 :: rat) = 0" by (simp only: eq)
    then show False using ne by simp
  qed
  then have "1 \<le> \<bar>D\<bar>" by simp
  then have "(of_int 1 :: rat) \<le> of_int \<bar>D\<bar>" by (simp only: of_int_le_iff)
  then have D1: "(1 :: rat) \<le> \<bar>of_int D\<bar>" by simp
  have "(of_int N :: rat) \<le> of_int (2 ^ 51)" using N51 by (simp only: of_int_le_iff)
  then have N': "(of_int N :: rat) \<le> 2 ^ 51" by simp
  have Np: "0 < (of_int N :: rat)" using N by simp
  have "1 / 2 ^ 51 \<le> \<bar>of_int D\<bar> / (of_int N :: rat)"
    using D1 N' Np by (intro frac_le) auto
  then show ?thesis using Np unfolding eq by (simp add: abs_divide)
qed

lemma colour_threshold_exact:
  fixes x s X S :: int and F :: rat
  assumes q: "0 \<le> x" "x \<le> s" "0 < s" "s \<le> 2 ^ 25"
    and M: "0 < X" "X \<le> S" "0 < S" "S \<le> 2 ^ 25"
    and F: "\<bar>F - of_int X / of_int S\<bar> \<le> 1 / 2 ^ 53"
    and FM: "nearest_float64 (of_int X / of_int S) \<le> F"
  shows "(F / 2 < nearest_float64 (of_int x / of_int s))
         \<longleftrightarrow> (of_int X / of_int S / 2 < (of_int x / of_int s :: rat))"
proof -
  define qv :: rat where "qv = of_int x / of_int s"
  define Mv :: rat where "Mv = of_int X / of_int S"
  define g where "g = nearest_float64 qv"
  have eq: "\<bar>g - qv\<bar> \<le> 1 / 2 ^ 53"
    unfolding g_def qv_def by (rule unit_ratio_rounding(1) [OF q])
  have F': "\<bar>F - Mv\<bar> \<le> 1 / 2 ^ 53" using F by (simp add: Mv_def)
  have num: "(3 / 2) * (1 / 2 ^ 53 :: rat) < 1 / 2 ^ 51" by simp
  consider "Mv / 2 < qv" | "qv < Mv / 2" | "qv = Mv / 2" by linarith
  then have "(F / 2 < g) \<longleftrightarrow> (Mv / 2 < qv)"
  proof cases
    case 1
    then have "qv \<noteq> Mv / 2" by simp
    then have "1 / 2 ^ 51 \<le> \<bar>qv - Mv / 2\<bar>"
      unfolding qv_def Mv_def by (rule unit_ratio_separated [OF q(3,4) M(3,4)])
    then have "1 / 2 ^ 51 \<le> qv - Mv / 2" using 1 by linarith
    then have "F / 2 < g" using eq F' num by linarith
    then show ?thesis using 1 by simp
  next
    case 2
    then have "qv \<noteq> Mv / 2" by simp
    then have "1 / 2 ^ 51 \<le> \<bar>qv - Mv / 2\<bar>"
      unfolding qv_def Mv_def by (rule unit_ratio_separated [OF q(3,4) M(3,4)])
    then have "1 / 2 ^ 51 \<le> Mv / 2 - qv" using 2 by linarith
    then have "\<not> F / 2 < g" using eq F' num by linarith
    then show ?thesis using 2 by simp
  next
    case 3
    have lo: "1 / 2 ^ 25 \<le> Mv"
      unfolding Mv_def by (rule unit_ratio_bounds(3) [OF _ M(2,3,4) M(1)]) (use M(1) in simp)
    have "(1 / 2 ^ 100 :: rat) \<le> 1 / 2 ^ 25" by simp
    then have "2 powi (- 1021) \<le> \<bar>Mv\<bar>" using lo pow2_m1021_small by linarith
    then have "nearest_float64 (Mv / 2) = nearest_float64 Mv / 2"
      by (rule nearest_float64_half)
    then have "g = nearest_float64 Mv / 2" by (simp add: g_def 3)
    then have "\<not> F / 2 < g" using FM by (simp add: Mv_def)
    then show ?thesis using 3 by simp
  qed
  then show ?thesis by (simp add: g_def qv_def Mv_def)
qed

lemma Max_cons_max: "Max (set (max x y # ys)) = Max (set (x # y # (ys :: 'a :: linorder list)))"
proof (cases "ys = []")
  case True
  then show ?thesis by simp
next
  case False
  then have "set ys \<noteq> {}" by simp
  then show ?thesis by (simp add: max.assoc)
qed

lemma maximum_int: "maximum (IntV x) (IntV y) = IntV (max x y)"
  by (simp add: maximum_def)

lemma foldl_maximum_int: "foldl maximum (IntV x) (map IntV xs) = IntV (Max (set (x # xs)))"
proof (induction xs arbitrary: x)
  case Nil
  then show ?case by simp
next
  case (Cons y ys)
  have "foldl maximum (IntV x) (map IntV (y # ys)) = foldl maximum (IntV (max x y)) (map IntV ys)"
    by (simp add: maximum_int)
  also have "\<dots> = IntV (Max (set (max x y # ys)))" by (rule Cons.IH)
  also have "Max (set (max x y # ys)) = Max (set (x # y # ys))" by (rule Max_cons_max)
  finally show ?case .
qed

lemma maximum_fin: "maximum (FloatV (Fin a)) (FloatV (Fin b)) = FloatV (Fin (max a b))"
  by (simp add: maximum_def to_float_def fgt_def fval_def max_def)

lemma foldl_maximum_fin:
  "foldl maximum (FloatV (Fin a)) (map (\<lambda>q. FloatV (Fin q)) bs) = FloatV (Fin (Max (set (a # bs))))"
proof (induction bs arbitrary: a)
  case Nil
  then show ?case by simp
next
  case (Cons b bs)
  have "foldl maximum (FloatV (Fin a)) (map (\<lambda>q. FloatV (Fin q)) (b # bs))
        = foldl maximum (FloatV (Fin (max a b))) (map (\<lambda>q. FloatV (Fin q)) bs)"
    by (simp add: maximum_fin)
  also have "\<dots> = FloatV (Fin (Max (set (max a b # bs))))" by (rule Cons.IH)
  also have "Max (set (max a b # bs)) = Max (set (a # b # bs))" by (rule Max_cons_max)
  finally show ?case .
qed

lemma amax_int:
  assumes "concat m \<noteq> []"
  shows "amax (map (map IntV) m) = Inr (IntV (Max (set (concat m))))"
proof -
  obtain c cs where c: "concat m = c # cs" using assms by (cases "concat m") auto
  have "concat (map (map IntV) m) = map IntV (concat m)" by (simp add: map_concat)
  then show ?thesis
    by (simp add: amax_def c foldl_maximum_int)
qed

lemma amax_fin:
  assumes "concat v \<noteq> []"
  shows "amax (map (map (\<lambda>q. FloatV (Fin (f q)))) v) = Inr (FloatV (Fin (Max (f ` set (concat v)))))"
proof -
  obtain c cs where c: "concat v = c # cs" using assms by (cases "concat v") auto
  have "concat (map (map (\<lambda>q. FloatV (Fin (f q)))) v) = map (\<lambda>q. FloatV (Fin q)) (map f (concat v))"
    by (simp add: map_concat comp_def)
  then show ?thesis
    using foldl_maximum_fin [of "f c" "map f cs"] by (simp add: amax_def c)
qed

lemma to_float64_half_int:
  assumes "\<bar>M\<bar> \<le> 2 ^ 53"
  shows "to_float64 (of_int M / 2) = Fin (of_int M / 2)"
proof (cases "M = 0")
  case True
  then show ?thesis by simp
next
  case False
  let ?M = "of_int M :: rat"
  have one: "1 \<le> \<bar>?M\<bar>" using False by (simp flip: of_int_abs)
  have "(of_int \<bar>M\<bar> :: rat) \<le> of_int (2 ^ 53)" using assms by (simp only: of_int_le_iff)
  then have up: "\<bar>?M\<bar> \<le> 2 ^ 53" by simp
  have "(1 / 2 ^ 100 :: rat) \<le> 1" by simp
  then have "2 powi (- 1021) \<le> \<bar>?M\<bar>" using one pow2_m1021_small by linarith
  then have "nearest_float64 (?M / 2) = nearest_float64 ?M / 2" by (rule nearest_float64_half)
  then have n: "nearest_float64 (?M / 2) = ?M / 2" by (simp add: nearest_float64_int [OF assms])
  have "(1 / 2 ^ 100 :: rat) \<le> 1 / 2" "(2 ^ 53 :: rat) / 2 \<le> 2 ^ 100" by simp_all
  then have "1 / 2 ^ 100 \<le> \<bar>?M / 2\<bar>" "\<bar>?M / 2\<bar> \<le> 2 ^ 100" using one up by simp_all
  then have "to_float64 (?M / 2) = Fin (nearest_float64 (?M / 2))" by (rule to_float64_normal(1))
  then show ?thesis by (simp only: n)
qed

lemma cell_in_concat:
  assumes "i < length m" "j < length (m ! i)"
  shows "m ! i ! j \<in> set (concat m)"
proof -
  have "m ! i \<in> set m" using assms(1) by simp
  moreover have "m ! i ! j \<in> set (m ! i)" using assms(2) by simp
  ultimately show ?thesis by auto
qed

lemma raw_colour:
  assumes b: "\<forall>r\<in>set m. \<forall>x\<in>set r. \<bar>x\<bar> \<le> 2 ^ 53"
    and i: "i < length m" and j: "j < length (m ! i)"
    and mx: "amax (displayed m False) = Inr mx"
  shows "exceeds (displayed m False ! i ! j) (halve mx)
         \<longleftrightarrow> Max (set (concat (exact_values m False))) / 2 < exact_values m False ! i ! j"
proof -
  define x where "x = m ! i ! j"
  define M where "M = Max (set (concat m))"
  have xin: "x \<in> set (concat m)" unfolding x_def by (rule cell_in_concat [OF i j])
  then have ne: "concat m \<noteq> []" by (metis empty_iff empty_set)
  have all: "\<bar>y\<bar> \<le> 2 ^ 53" if "y \<in> set (concat m)" for y
    using that b by auto
  have "M \<in> set (concat m)" unfolding M_def using ne by (intro Max_in) auto
  then have M53: "\<bar>M\<bar> \<le> 2 ^ 53" by (rule all)
  have x53: "\<bar>x\<bar> \<le> 2 ^ 53" using xin by (rule all)
  have "mx = IntV M"
    using mx amax_int [OF ne] by (simp add: displayed_def M_def)
  then have h: "halve mx = Fin (of_int M / 2)"
    by (simp add: halve_def to_float_def fdiv_pos_def int64_to_float_exact [OF M53]
        to_float64_half_int [OF M53])
  have d: "displayed m False ! i ! j = IntV x"
    using i j by (simp add: displayed_def x_def)
  have lhs: "exceeds (displayed m False ! i ! j) (halve mx) \<longleftrightarrow> (of_int M / 2 < (of_int x :: rat))"
    by (simp add: d h exceeds_def to_float_def int64_to_float_exact [OF x53] fgt_def fval_def)
  have "concat (exact_values m False) = map of_int (concat m)"
    by (simp add: exact_values_def map_concat)
  then have "Max (set (concat (exact_values m False))) = Max ((of_int :: int \<Rightarrow> rat) ` set (concat m))"
    by simp
  also have "\<dots> = of_int M"
    unfolding M_def using ne by (intro mono_Max_commute [symmetric]) (auto simp: mono_def)
  finally have mxv: "Max (set (concat (exact_values m False))) = of_int M" .
  have cell: "exact_values m False ! i ! j = of_int x"
    using i j by (simp add: exact_values_def x_def)
  show ?thesis unfolding lhs mxv cell ..
qed

lemma member_le_sum_list_int:
  fixes r :: "int list"
  assumes "\<forall>y\<in>set r. 0 \<le> y" "x \<in> set r"
  shows "x \<le> sum_list r"
  using assms
proof (induction r)
  case Nil
  then show ?case by simp
next
  case (Cons a r)
  have nn: "0 \<le> sum_list r" using Cons.prems(1) by (intro sum_list_nonneg) auto
  show ?case
  proof (cases "x = a")
    case True
    then show ?thesis using nn by simp
  next
    case False
    then have "x \<le> sum_list r" using Cons by auto
    moreover have "0 \<le> a" using Cons.prems(1) by simp
    ultimately show ?thesis by simp
  qed
qed

lemma positive_sum_has_positive:
  fixes r :: "int list"
  assumes "0 < sum_list r"
  shows "\<exists>x\<in>set r. 0 < x"
proof (rule ccontr)
  assume "\<not> (\<exists>x\<in>set r. 0 < x)"
  then have "\<forall>x\<in>set r. x \<le> 0" by auto
  then have "sum_list r \<le> 0" by (intro sum_list_nonpos) auto
  then show False using assms by simp
qed

lemma displayed_normalized:
  assumes H: "\<forall>r\<in>set m. (\<forall>x\<in>set r. 0 \<le> x) \<and> 0 < sum_list r \<and> sum_list r \<le> 2 ^ 25"
  shows "displayed m True
         = map (map (\<lambda>q. FloatV (Fin (nearest_float64 q)))) (exact_values m True)"
proof -
  have inner: "map FloatV (map (\<lambda>x. true_divide x (row_sum r)) r)
               = map (\<lambda>q. FloatV (Fin (nearest_float64 q)))
                   (map (\<lambda>x. of_int x / of_int (sum_list r)) r)"
    if r: "r \<in> set m" for r
  proof -
    have s: "0 < sum_list r" "sum_list r \<le> 2 ^ 25" using H r by auto
    have rs: "row_sum r = sum_list r" using s by (intro row_sum_exact) auto
    have "true_divide x (row_sum r) = Fin (nearest_float64 (of_int x / of_int (sum_list r)))"
      if x: "x \<in> set r" for x
    proof -
      have nn: "\<forall>y\<in>set r. 0 \<le> y" using H r by auto
      have "0 \<le> x" using nn x by auto
      moreover have "x \<le> sum_list r" by (rule member_le_sum_list_int [OF nn x])
      ultimately show ?thesis
        unfolding rs using s by (intro unit_ratio_rounding(2)) auto
    qed
    then show ?thesis by (simp add: comp_def)
  qed
  have "map (\<lambda>r. map FloatV (map (\<lambda>x. true_divide x (row_sum r)) r)) m
        = map (\<lambda>r. map (\<lambda>q. FloatV (Fin (nearest_float64 q)))
                   (map (\<lambda>x. of_int x / of_int (sum_list r)) r)) m"
    using inner by (intro map_cong) auto
  then show ?thesis
    by (simp add: displayed_def normalize_rows_alt exact_values_def comp_def)
qed

lemma exact_values_unit_ratio:
  assumes H: "\<forall>r\<in>set m. (\<forall>x\<in>set r. 0 \<le> x) \<and> 0 < sum_list r \<and> sum_list r \<le> 2 ^ 25"
    and q: "q \<in> set (concat (exact_values m True))"
  shows "\<exists>x s :: int. q = of_int x / of_int s \<and> 0 \<le> x \<and> x \<le> s \<and> 0 < s \<and> s \<le> 2 ^ 25"
proof -
  have "\<exists>r\<in>set m. \<exists>x\<in>set r. q = of_int x / of_int (sum_list r)"
    using q by (auto simp: exact_values_def)
  then obtain r x where r: "r \<in> set m" and x: "x \<in> set r"
    and qq: "q = of_int x / of_int (sum_list r)" by blast
  have nn: "\<forall>y\<in>set r. 0 \<le> y" using H r by auto
  have "0 \<le> x" using nn x by auto
  moreover have "x \<le> sum_list r" by (rule member_le_sum_list_int [OF nn x])
  moreover have "0 < sum_list r" "sum_list r \<le> 2 ^ 25" using H r by auto
  ultimately show ?thesis using qq by blast
qed

lemma normalized_colour:
  assumes H: "\<forall>r\<in>set m. (\<forall>x\<in>set r. 0 \<le> x) \<and> 0 < sum_list r \<and> sum_list r \<le> 2 ^ 25"
    and i: "i < length m" and j: "j < length (m ! i)"
    and mx: "amax (displayed m True) = Inr mx"
  shows "exceeds (displayed m True ! i ! j) (halve mx)
         \<longleftrightarrow> Max (set (concat (exact_values m True))) / 2 < exact_values m True ! i ! j"
proof -
  define v where "v = exact_values m True"
  define V where "V = set (concat v)"
  define M where "M = Max V"
  define G where "G = nearest_float64 ` V"
  define F where "F = Max G"
  have lv: "length v = length m" and lvi: "length (v ! i) = length (m ! i)"
    using i by (simp_all add: v_def exact_values_def)
  have cell: "v ! i ! j \<in> V"
    unfolding V_def using i j lv lvi by (intro cell_in_concat) auto
  then have ne: "concat v \<noteq> []" unfolding V_def by (metis empty_iff empty_set)
  have finV: "finite V" by (simp add: V_def)
  have neV: "V \<noteq> {}" using cell by blast
  note fin = finV neV
  have finG: "finite G" "G \<noteq> {}" using fin by (auto simp: G_def)
  have ratio: "\<exists>x s :: int. q = of_int x / of_int s \<and> 0 \<le> x \<and> x \<le> s \<and> 0 < s \<and> s \<le> 2 ^ 25"
    if "q \<in> V" for q
    using that exact_values_unit_ratio [OF H] by (simp add: V_def v_def)
  have err: "\<bar>nearest_float64 q - q\<bar> \<le> 1 / 2 ^ 53" if qin: "q \<in> V" for q
  proof -
    obtain x s :: int where "q = of_int x / of_int s" "0 \<le> x" "x \<le> s" "0 < s" "s \<le> 2 ^ 25"
      using ratio [OF qin] by blast
    then show ?thesis using unit_ratio_rounding(1) [of x s] by simp
  qed
  have Min: "M \<in> V" unfolding M_def using fin by (rule Max_in)
  obtain X S :: int where MX: "M = of_int X / of_int S" and XS: "0 \<le> X" "X \<le> S" "0 < S" "S \<le> 2 ^ 25"
    using ratio [OF Min] by blast
  have Mpos: "0 < M"
  proof -
    have mi: "m ! i \<in> set m" using i by simp
    then have "0 < sum_list (m ! i)" using H by auto
    then obtain x where x: "x \<in> set (m ! i)" "0 < x"
      using positive_sum_has_positive by blast
    have "of_int x / of_int (sum_list (m ! i)) \<in> V"
      using mi x(1) by (auto simp: V_def v_def exact_values_def)
    then have "of_int x / of_int (sum_list (m ! i)) \<le> M"
      unfolding M_def using fin(1) by (intro Max_ge)
    moreover have "(0 :: rat) < of_int x / of_int (sum_list (m ! i))"
      using x(2) \<open>0 < sum_list (m ! i)\<close> by simp
    ultimately show ?thesis by linarith
  qed
  have Xpos: "0 < X"
  proof (rule ccontr)
    assume "\<not> 0 < X"
    then have "X = 0" using XS(1) by simp
    then show False using Mpos MX by simp
  qed
  have gM: "nearest_float64 M \<le> F"
    unfolding F_def G_def using Min fin(1) by (intro Max_ge) auto
  have "F \<in> G" unfolding F_def using finG by (rule Max_in)
  then obtain q0 where q0: "q0 \<in> V" and Fq: "F = nearest_float64 q0" by (auto simp: G_def)
  have "q0 \<le> M" unfolding M_def using q0 fin(1) by (intro Max_ge)
  then have Fup: "F \<le> M + 1 / 2 ^ 53" using err [OF q0] Fq by linarith
  have Flo: "M - 1 / 2 ^ 53 \<le> F" using err [OF Min] gM by linarith
  have FM: "\<bar>F - M\<bar> \<le> 1 / 2 ^ 53" using Fup Flo by linarith
  have Mlo: "1 / 2 ^ 25 \<le> M" unfolding MX by (rule unit_ratio_bounds(3) [OF XS Xpos])
  have Mhi: "M \<le> 1" unfolding MX by (rule unit_ratio_bounds(2) [OF XS])
  have num: "(1 / 2 ^ 25 :: rat) - 1 / 2 ^ 53 \<ge> 1 / 2 ^ 26" "(1 / 2 ^ 100 :: rat) \<le> 1 / 2 ^ 26"
    "(0 :: rat) < 1 / 2 ^ 26" "(1 :: rat) + 1 / 2 ^ 53 \<le> 2" "(2 :: rat) \<le> 2 ^ 100"
    "(1 / 2 ^ 100 :: rat) \<le> 1 / 2 ^ 26 / 2"
    by simp_all
  have Fb: "1 / 2 ^ 26 \<le> F" "F \<le> 2" using Flo Fup Mlo Mhi num by linarith+
  have Fpos: "0 < F" using Fb(1) num(3) by linarith
  have mxF: "mx = FloatV (Fin F)"
    using mx amax_fin [OF ne, of nearest_float64]
    by (simp add: displayed_normalized [OF H] v_def [symmetric] F_def G_def V_def)
  have "2 powi (- 1021) \<le> \<bar>F\<bar>" using Fb(1) Fpos num(2) pow2_m1021_small by linarith
  then have "nearest_float64 (F / 2) = nearest_float64 F / 2" by (rule nearest_float64_half)
  also have "nearest_float64 F = F" unfolding Fq by (rule nearest_float64_idem)
  finally have nh: "nearest_float64 (F / 2) = F / 2" .
  have "1 / 2 ^ 100 \<le> \<bar>F / 2\<bar>" "\<bar>F / 2\<bar> \<le> 2 ^ 100" using Fb Fpos num by simp_all
  then have "to_float64 (F / 2) = Fin (nearest_float64 (F / 2))" by (rule to_float64_normal(1))
  then have h: "halve mx = Fin (F / 2)"
    by (simp add: halve_def mxF to_float_def fdiv_pos_def nh)
  obtain x s :: int where qc: "v ! i ! j = of_int x / of_int s"
    and xs: "0 \<le> x" "x \<le> s" "0 < s" "s \<le> 2 ^ 25"
    using ratio [OF cell] by blast
  have d: "displayed m True ! i ! j = FloatV (Fin (nearest_float64 (v ! i ! j)))"
    using i j lv lvi by (simp add: displayed_normalized [OF H] v_def [symmetric])
  have "exceeds (displayed m True ! i ! j) (halve mx) \<longleftrightarrow> F / 2 < nearest_float64 (v ! i ! j)"
    by (simp add: d h exceeds_def to_float_def fgt_def fval_def)
  also have "\<dots> \<longleftrightarrow> M / 2 < v ! i ! j"
    unfolding qc MX
    by (rule colour_threshold_exact [OF xs Xpos XS(2,3,4) FM [unfolded MX] gM [unfolded MX]])
  finally show ?thesis by (simp only: M_def V_def v_def)
qed

lemma int64_to_float_above_2_53:
  "int64_to_float 9007199254740993 = 9007199254740992"
  "int64_to_float 18014398509481984 = 18014398509481984"
proof -
  have r: "rint (9007199254740993 / 2) = 4503599627370496" by code_simp
  show "int64_to_float 9007199254740993 = 9007199254740992"
    using nearest_float64_eval [of 9007199254740993 53] r by (simp add: int64_to_float_def)
  show "int64_to_float 18014398509481984 = 18014398509481984"
    using nearest_float64_exact [of 1 54] by (simp add: int64_to_float_def)
qed

section \<open>Properties\<close>

subsection \<open>Accuracy\<close>



text \<open>
  Claim C2, as the code has it. \<open>model_accuracy\<close> never ends in the condition
  \<open>InvalidInput\<close>. When the two arrays have different lengths and neither has length
  one, the call ends in the array library's own exception and returns no number. Two
  empty arrays raise nothing: the result is \<open>nan\<close>.
\<close>

theorem model_accuracy_failure:
  "(length pred \<noteq> length target \<and> length pred \<noteq> 1 \<and> length target \<noteq> 1
      \<longrightarrow> model_accuracy pred target = Inl LibraryException)
   \<and> model_accuracy [] [] = Inr NaN
   \<and> model_accuracy pred target \<noteq> Inl InvalidInput"
proof -
  have "model_accuracy [] [] = Inr NaN"
    by (simp add: model_accuracy_def np_equal_def bool_sum_def true_divide_def
        round_ndigits_2 fmul_pos_def frint_def fdiv_pos_def)
  moreover have "model_accuracy pred target \<noteq> Inl InvalidInput"
    by (auto simp: model_accuracy_def np_equal_def Let_def)
  moreover have "model_accuracy pred target = Inl LibraryException"
    if "length pred \<noteq> length target \<and> length pred \<noteq> 1 \<and> length target \<noteq> 1"
    using that by (simp add: model_accuracy_def np_equal_def)
  ultimately show ?thesis by blast
qed

text \<open>Arrays of length three and two.\<close>

theorem model_accuracy_failure_witness:
  "length [1, 2, 3 :: int] \<noteq> length [1, 2 :: int] \<and> length [1, 2, 3 :: int] \<noteq> 1
   \<and> length [1, 2 :: int] \<noteq> 1 \<and> model_accuracy [1, 2, 3] [1, 2] = Inl LibraryException"
  using model_accuracy_failure [of "[1, 2, 3]" "[1, 2]"] by simp

text \<open>
  Claim C2 as it is written fails: two empty arrays give \<open>nan\<close> and no failure, an
  array of length one is broadcast against a longer one and a number is returned, and
  mismatched lengths end in the library's exception, not in \<open>InvalidInput\<close>.
\<close>

theorem model_accuracy_invalid_input_counterexample:
  "model_accuracy [] [] = Inr NaN
   \<and> model_accuracy [1] [1, 2] = Inr (Fin (1 / 2))
   \<and> model_accuracy [1, 2, 3] [1, 2] = Inl LibraryException"
proof -
  have a: "model_accuracy [] [] = Inr NaN"
    by (simp add: model_accuracy_def np_equal_def bool_sum_def true_divide_def
        round_ndigits_2 fmul_pos_def frint_def fdiv_pos_def)
  have td: "true_divide 1 2 = Fin (1 / 2)"
    using true_divide_exact_args [of 1 2] by (simp add: to_float64_half)
  have "round_ndigits (Fin (1 / 2)) 2 = Fin (1 / 2)"
    by (simp add: round_ndigits_2 fmul_pos_def frint_def fdiv_pos_def to_float64_fifty
        to_float64_half)
  then have b: "model_accuracy [1] [1, 2] = Inr (Fin (1 / 2))"
    by (simp add: model_accuracy_def np_equal_def bool_sum_def td)
  have c: "model_accuracy [1, 2, 3] [1, 2] = Inl LibraryException"
    by (simp add: model_accuracy_def np_equal_def)
  show ?thesis using a b c by simp
qed

subsection \<open>Rendering of the confusion matrix\<close>

text \<open>
  Claim C3 says that with the flag set the heat-mapped grid shows the row-normalised
  values. The function calls \<open>imshow\<close> before the \<open>if normalize:\<close> statement: on the
  matrix \<open>[[1, 3], [20, 20]]\<close> with the flag set, the only image drawn holds the raw
  counts, while the local name \<open>cm\<close> denotes the normalised matrix
  \<open>[[0.25, 0.75], [0.5, 0.5]]\<close> only afterwards.
\<close>

theorem normalized_image_not_drawn:
  "image_calls (fst (snd (plot_confusion_matrix example_store 0 [0 :: nat, 1] True ''cm'' ''Blues'')))
     = [Imshow [[IntV 1, IntV 3], [IntV 20, IntV 20]] ''nearest'' ''Blues'']
   \<and> displayed (int_arrays example_store 0) True
     = [[FloatV (Fin (1 / 4)), FloatV (Fin (3 / 4))], [FloatV (Fin (1 / 2)), FloatV (Fin (1 / 2))]]"
  by (simp add: image_of_raw_counts example_store_simps displayed_def normalize_rows_alt
      example_row_sums example_quotients)

text \<open>
  Claim C4, as the code has it. The comparison \<open>cm[i, j] > cm.max() / 2.\<close> is made on
  float64 values. It agrees with the comparison in exact arithmetic where the rounding
  cannot change its outcome: without normalisation when every entry has magnitude at most
  \<open>2 ^ 53\<close>, and with normalisation when the entries are non-negative and every row sum
  is positive and at most \<open>2 ^ 25\<close>. For every such matrix and every cell \<open>(i, j)\<close> of
  it, the annotation of the cell is white exactly when the cell's value (divided by the
  sum of its row when the flag is set) is strictly greater than half the maximum of these
  values over the matrix, and black otherwise.
\<close>

theorem annotation_colour_by_half_maximum:
  fixes normalize_flag :: bool
  assumes "is_matrix (int_arrays s cm)"
    and "i < shape0 (int_arrays s cm)" and "j < shape1 (int_arrays s cm)"
    and "if normalize_flag
         then \<forall>r\<in>set (int_arrays s cm). (\<forall>x\<in>set r. 0 \<le> x) \<and> 0 < sum_list r \<and> sum_list r \<le> 2 ^ 25
         else \<forall>r\<in>set (int_arrays s cm). \<forall>x\<in>set r. \<bar>x\<bar> \<le> 2 ^ 53"
  defines "v \<equiv> exact_values (int_arrays s cm) normalize_flag"
  shows "\<exists>c. annotations_at (fst (snd (plot_confusion_matrix s cm classes normalize_flag title cmap))) j i
           = [Text j i (displayed (int_arrays s cm) normalize_flag ! i ! j) ''center'' c]
       \<and> (c = White \<longleftrightarrow> Max (set (concat v)) / 2 < v ! i ! j)
       \<and> (c = Black \<longleftrightarrow> \<not> Max (set (concat v)) / 2 < v ! i ! j)"
proof -
  let ?m = "int_arrays s cm"
  let ?d = "displayed ?m normalize_flag"
  obtain mx where mx: "amax ?d = Inr mx"
    using amax_displayed [OF assms(1-3)] by blast
  have i: "i < length ?m" using assms(2) by (simp add: shape0_def)
  have j: "j < length (?m ! i)"
    using is_matrix_row [OF assms(1) i] assms(3) by simp
  define c where "c = (if exceeds (?d ! i ! j) (halve mx) then White else Black)"
  have ann: "annotations_at (fst (snd (plot_confusion_matrix s cm classes normalize_flag title cmap))) j i
           = [Text j i (?d ! i ! j) ''center'' c]"
    unfolding c_def by (rule calls_annotations [OF assms(2,3) mx])
  have col: "exceeds (?d ! i ! j) (halve mx) \<longleftrightarrow> Max (set (concat v)) / 2 < v ! i ! j"
  proof (cases normalize_flag)
    case True
    then have H: "\<forall>r\<in>set ?m. (\<forall>x\<in>set r. 0 \<le> x) \<and> 0 < sum_list r \<and> sum_list r \<le> 2 ^ 25"
      using assms(4) by simp
    from True have nf: "normalize_flag = True" by simp
    show ?thesis
      unfolding v_def nf by (rule normalized_colour [OF H i j mx [unfolded nf]])
  next
    case False
    then have H: "\<forall>r\<in>set ?m. \<forall>x\<in>set r. \<bar>x\<bar> \<le> 2 ^ 53"
      using assms(4) by simp
    from False have nf: "normalize_flag = False" by simp
    show ?thesis
      unfolding v_def nf by (rule raw_colour [OF H i j mx [unfolded nf]])
  qed
  have "c = White \<longleftrightarrow> Max (set (concat v)) / 2 < v ! i ! j"
    and "c = Black \<longleftrightarrow> \<not> Max (set (concat v)) / 2 < v ! i ! j"
    using col by (simp_all add: c_def)
  then show ?thesis using ann by blast
qed

text \<open>
  Cell \<open>(0, 1)\<close> of the example: normalised, \<open>0.75\<close> exceeds half of the maximum
  \<open>0.75\<close>; raw, \<open>3\<close> does not exceed half of the maximum \<open>20\<close>.
\<close>

theorem annotation_colour_by_half_maximum_witness:
  "is_matrix (int_arrays example_store 0) \<and> 0 < shape0 (int_arrays example_store 0)
   \<and> 1 < shape1 (int_arrays example_store 0)
   \<and> annotations_at
        (fst (snd (plot_confusion_matrix example_store 0 [0 :: nat, 1] True ''cm'' ''Blues''))) 1 0
       = [Text 1 0 (FloatV (Fin (3 / 4))) ''center'' White]
   \<and> annotations_at
        (fst (snd (plot_confusion_matrix example_store 0 [0 :: nat, 1] False ''cm'' ''Blues''))) 1 0
       = [Text 1 0 (IntV 3) ''center'' Black]"
proof -
  let ?m = "int_arrays example_store 0"
  have h1: "is_matrix ?m"
    by (simp add: example_store_simps is_matrix_def shape1_def)
  have h2: "0 < shape0 ?m"
    by (simp add: example_store_simps shape0_def)
  have h3: "1 < shape1 ?m"
    by (simp add: example_store_simps shape1_def)
  have h4: "if True
         then \<forall>r\<in>set ?m. (\<forall>x\<in>set r. 0 \<le> x) \<and> 0 < sum_list r \<and> sum_list r \<le> 2 ^ 25
         else \<forall>r\<in>set ?m. \<forall>x\<in>set r. \<bar>x\<bar> \<le> 2 ^ 53"
    by (simp add: example_store_simps)
  have h5: "if False
         then \<forall>r\<in>set ?m. (\<forall>x\<in>set r. 0 \<le> x) \<and> 0 < sum_list r \<and> sum_list r \<le> 2 ^ 25
         else \<forall>r\<in>set ?m. \<forall>x\<in>set r. \<bar>x\<bar> \<le> 2 ^ 53"
    by (simp add: example_store_simps)
  have vt: "exact_values ?m True = [[1 / 4, 3 / 4], [1 / 2, 1 / 2]]"
    and vf: "exact_values ?m False = [[1, 3], [20, 20]]"
    by (simp_all add: example_store_simps exact_values_def)
  have dt: "displayed ?m True ! 0 ! 1 = FloatV (Fin (3 / 4))"
    and df: "displayed ?m False ! 0 ! 1 = IntV 3"
    by (simp_all add: example_store_simps displayed_def normalize_rows_alt example_row_sums
        example_quotients)
  obtain c where
    ann: "annotations_at
        (fst (snd (plot_confusion_matrix example_store 0 [0 :: nat, 1] True ''cm'' ''Blues''))) 1 0
       = [Text 1 0 (displayed ?m True ! 0 ! 1) ''center'' c]"
    and col: "c = White \<longleftrightarrow>
         Max (set (concat (exact_values ?m True))) / 2 < exact_values ?m True ! 0 ! 1"
    using annotation_colour_by_half_maximum [OF h1 h2 h3 h4, where classes = "[0 :: nat, 1]"
        and title = "''cm''" and cmap = "''Blues''"]
    by blast
  have w: "c = White" using col unfolding vt by simp
  obtain c' where
    ann': "annotations_at
        (fst (snd (plot_confusion_matrix example_store 0 [0 :: nat, 1] False ''cm'' ''Blues''))) 1 0
       = [Text 1 0 (displayed ?m False ! 0 ! 1) ''center'' c']"
    and col': "c' = Black \<longleftrightarrow>
         \<not> Max (set (concat (exact_values ?m False))) / 2 < exact_values ?m False ! 0 ! 1"
    using annotation_colour_by_half_maximum [OF h1 h2 h3 h5, where classes = "[0 :: nat, 1]"
        and title = "''cm''" and cmap = "''Blues''"]
    by blast
  have b: "c' = Black" using col' unfolding vf by simp
  show ?thesis
    using h1 h2 h3 ann ann' unfolding dt df w b by simp
qed

text \<open>
  Claim C4 as it is written, for every matrix, fails: in \<open>[[2 ^ 53 + 1, 2 ^ 54]]\<close> the
  first count is greater than half the maximum, but it is converted to the float
  \<open>2 ^ 53\<close>, which is not greater than the threshold \<open>2 ^ 53\<close>, and its annotation is
  black.
\<close>

theorem large_counts_counterexample:
  "int_arrays example_store 3 = [[9007199254740993, 18014398509481984]]
   \<and> (18014398509481984 :: rat) / 2 < 9007199254740993
   \<and> annotations_at
        (fst (snd (plot_confusion_matrix example_store 3 [0 :: nat, 1] False ''cm'' ''Blues''))) 0 0
       = [Text 0 0 (IntV 9007199254740993) ''center'' Black]"
proof -
  let ?m = "int_arrays example_store 3"
  have m: "?m = [[9007199254740993, 18014398509481984]]" by (simp add: example_store_simps)
  have mx: "amax (displayed ?m False) = Inr (IntV 18014398509481984)"
    using amax_int [of "[[9007199254740993, 18014398509481984]]"]
    by (simp add: m displayed_def)
  have t: "to_float64 9007199254740992 = Fin 9007199254740992"
    using to_float64_int [of 9007199254740992] by simp
  have h: "halve (IntV 18014398509481984) = Fin 9007199254740992"
    by (simp add: halve_def to_float_def fdiv_pos_def int64_to_float_above_2_53 t)
  have e: "\<not> exceeds (IntV 9007199254740993) (Fin 9007199254740992)"
    by (simp add: exceeds_def to_float_def int64_to_float_above_2_53 fgt_def fval_def)
  have "annotations_at
        (fst (snd (plot_confusion_matrix example_store 3 [0 :: nat, 1] False ''cm'' ''Blues''))) 0 0
       = [Text 0 0 (displayed ?m False ! 0 ! 0) ''center''
            (if exceeds (displayed ?m False ! 0 ! 0) (halve (IntV 18014398509481984))
             then White else Black)]"
    by (rule calls_annotations [OF _ _ mx]) (simp_all add: m shape0_def shape1_def)
  moreover have "displayed ?m False ! 0 ! 0 = IntV 9007199254740993"
    by (simp add: m displayed_def)
  ultimately show ?thesis using m h e by simp
qed

text \<open>
  Claim C5. For every row index \<open>i\<close> and column index \<open>j\<close> of the matrix, exactly one text
  annotation is placed at grid position (column \<open>j\<close>, row \<open>i\<close>); its content is the
  entry \<open>(i, j)\<close> divided by the sum of row \<open>i\<close> when the flag is set, and the raw entry
  otherwise.
\<close>

theorem every_cell_annotated_once:
  fixes normalize_flag :: bool
  assumes "is_matrix (int_arrays s cm)"
    and "i < shape0 (int_arrays s cm)" and "j < shape1 (int_arrays s cm)"
  defines "m \<equiv> int_arrays s cm"
  shows "\<exists>c. annotations_at (fst (snd (plot_confusion_matrix s cm classes normalize_flag title cmap))) j i
       = [Text j i (if normalize_flag then FloatV (true_divide (m ! i ! j) (row_sum (m ! i)))
                    else IntV (m ! i ! j)) ''center'' c]"
proof -
  obtain mx where mx: "amax (displayed m normalize_flag) = Inr mx"
    using amax_displayed [OF assms(1-3)] unfolding m_def by blast
  have i: "i < length m" using assms(2) by (simp add: shape0_def m_def)
  have j: "j < length (m ! i)"
    using is_matrix_row [OF assms(1)] i assms(3) by (simp add: m_def)
  have "annotations_at (fst (snd (plot_confusion_matrix s cm classes normalize_flag title cmap))) j i
       = [Text j i (displayed m normalize_flag ! i ! j) ''center''
            (if exceeds (displayed m normalize_flag ! i ! j) (halve mx) then White else Black)]"
    unfolding m_def by (rule calls_annotations [OF assms(2,3) mx [unfolded m_def]])
  then show ?thesis
    unfolding displayed_nth [OF i j] by blast
qed

text \<open>Cell \<open>(1, 0)\<close> of the example, without and with normalisation.\<close>

theorem every_cell_annotated_once_witness:
  "is_matrix (int_arrays example_store 0) \<and> 1 < shape0 (int_arrays example_store 0)
   \<and> 0 < shape1 (int_arrays example_store 0)
   \<and> (\<exists>c. annotations_at
        (fst (snd (plot_confusion_matrix example_store 0 [0 :: nat, 1] False ''cm'' ''Blues''))) 0 1
       = [Text 0 1 (IntV 20) ''center'' c])
   \<and> (\<exists>c. annotations_at
        (fst (snd (plot_confusion_matrix example_store 0 [0 :: nat, 1] True ''cm'' ''Blues''))) 0 1
       = [Text 0 1 (FloatV (Fin (1 / 2))) ''center'' c])"
proof -
  have h1: "is_matrix (int_arrays example_store 0)"
    by (simp add: example_store_simps is_matrix_def shape1_def)
  have h2: "1 < shape0 (int_arrays example_store 0)"
    by (simp add: example_store_simps shape0_def)
  have h3: "0 < shape1 (int_arrays example_store 0)"
    by (simp add: example_store_simps shape1_def)
  show ?thesis
    using h1 h2 h3
      every_cell_annotated_once [OF h1 h2 h3, where normalize_flag = False
        and classes = "[0 :: nat, 1]" and title = "''cm''" and cmap = "''Blues''"]
      every_cell_annotated_once [OF h1 h2 h3, where normalize_flag = True
        and classes = "[0 :: nat, 1]" and title = "''cm''" and cmap = "''Blues''"]
    by (simp add: example_store_simps example_row_sums example_quotients)
qed

text \<open>
  Claim C6. Neither function validates its input or raises a condition of its own: a
  call of \<open>model_accuracy\<close> or of \<open>plot_confusion_matrix\<close> that fails ends in an
  exception of the library, never in a custom condition.
\<close>

theorem no_custom_error_condition:
  "(model_accuracy pred target = Inl e \<longrightarrow> e = LibraryException)
   \<and> (snd (snd (plot_confusion_matrix s cm classes normalize_flag title cmap)) = Some e'
        \<longrightarrow> e' = LibraryException)"
proof -
  have "e = LibraryException" if "model_accuracy pred target = Inl e"
    using that
    by (auto simp: model_accuracy_def np_equal_def Let_def split: if_splits)
  moreover have "e' = LibraryException"
    if "snd (snd (plot_confusion_matrix s cm classes normalize_flag title cmap)) = Some e'"
    using that amax_error [of "displayed (int_arrays s cm) normalize_flag"]
    by (auto simp: plot_outcome split: sum.splits)
  ultimately show ?thesis by blast
qed

text \<open>Arrays that do not broadcast, and a matrix without entries.\<close>

theorem no_custom_error_condition_witness:
  "model_accuracy [1, 2, 3] [1, 2] = Inl LibraryException
   \<and> snd (snd (plot_confusion_matrix example_store 2 [0 :: nat, 1] False ''cm'' ''Blues''))
       = Some LibraryException"
proof -
  have a: "\<exists>e. model_accuracy [1, 2, 3] [1, 2] = Inl e"
    by (simp add: model_accuracy_def np_equal_def)
  have b: "\<exists>e. snd (snd (plot_confusion_matrix example_store 2 [0 :: nat, 1] False ''cm'' ''Blues''))
       = Some e"
    by (simp add: plot_outcome example_store_simps displayed_def amax_def)
  from a obtain e where e: "model_accuracy [1, 2, 3] [1, 2] = Inl e" ..
  from b obtain e' where e':
    "snd (snd (plot_confusion_matrix example_store 2 [0 :: nat, 1] False ''cm'' ''Blues'')) = Some e'" ..
  have "e = LibraryException" and "e' = LibraryException"
    using e e' no_custom_error_condition
      [where pred = "[1, 2, 3]" and target = "[1, 2]" and e = e and s = example_store and cm = 2
         and classes = "[0 :: nat, 1]" and normalize_flag = False and title = "''cm''"
         and cmap = "''Blues''" and e' = e']
    by blast+
  with e e' show ?thesis by simp
qed

text \<open>
  Claim C7. For class labels of length \<open>n\<close>, the ticks of the x axis and of the y axis
  are set once each, at the positions \<open>0, \<dots>, n - 1\<close>, and labelled with the class
  labels in the given order.
\<close>

theorem ticks_labelled_by_classes:
  "tick_calls (fst (snd (plot_confusion_matrix s cm classes normalize_flag title cmap)))
     = [Xticks [0..<length classes] classes 45, Yticks [0..<length classes] classes]"
proof (cases "amax (displayed (int_arrays s cm) normalize_flag)")
  case (Inl e)
  show ?thesis
    unfolding plot_calls_error [OF Inl] by (simp add: tick_calls_def)
next
  case (Inr mx)
  show ?thesis
    unfolding plot_calls_ok [OF Inr] tick_calls_append tick_calls_texts
    by (simp add: tick_calls_def)
qed

text \<open>
  Claim C8. The function defined in the Keras notebook and the one defined in the
  scikit-learn notebook behave identically on every store, matrix, sequence of class
  labels, flag, title and colour map.
\<close>

theorem notebooks_define_same_function:
  "plot_confusion_matrix_keras s cm classes normalize_flag title cmap
     = plot_confusion_matrix s cm classes normalize_flag title cmap"
  by (simp add: plot_confusion_matrix_keras_def plot_confusion_matrix_def)

text \<open>
  Claim C9. The call never changes the caller's matrix: every integer array of the store
  holds the same entries after the call as before it, for either value of the flag.
  Normalisation writes a float array at an address that was not in use, and no float
  array that existed before is changed.
\<close>

theorem input_matrix_not_mutated:
  "int_arrays (fst (plot_confusion_matrix s cm classes normalize_flag title cmap)) = int_arrays s
   \<and> (a \<noteq> next_float s \<longrightarrow>
        float_arrays (fst (plot_confusion_matrix s cm classes normalize_flag title cmap)) a
          = float_arrays s a)
   \<and> (normalize_flag \<longrightarrow>
        float_arrays (fst (plot_confusion_matrix s cm classes normalize_flag title cmap)) (next_float s)
          = normalize_rows (int_arrays s cm))"
  unfolding plot_store by (simp add: alloc_float_def)

text \<open>The example matrix is unchanged; its normalisation is at float address 0.\<close>

theorem input_matrix_not_mutated_witness:
  "int_arrays (fst (plot_confusion_matrix example_store 0 [0 :: nat, 1] True ''cm'' ''Blues'')) 0
     = [[1, 3], [20, 20]]
   \<and> float_arrays (fst (plot_confusion_matrix example_store 0 [0 :: nat, 1] True ''cm'' ''Blues'')) 0
     = [[Fin (1 / 4), Fin (3 / 4)], [Fin (1 / 2), Fin (1 / 2)]]
   \<and> float_arrays (fst (plot_confusion_matrix example_store 0 [0 :: nat, 1] True ''cm'' ''Blues'')) 1
     = []"
  using input_matrix_not_mutated
    [where s = example_store and cm = 0 and classes = "[0 :: nat, 1]" and normalize_flag = True
       and title = "''cm''" and cmap = "''Blues''" and a = 1]
  by (simp add: example_store_simps normalize_rows_alt example_row_sums example_quotients)
     (simp add: example_store_def)

text \<open>
  Claim C10, as the code has it. The normalisation divides every entry by the int64 sum
  of its row. When every row sum is strictly positive and below \<open>2 ^ 63\<close>, so that the
  int64 sum is the exact one, no divisor is zero and every quotient is an ordinary
  number. Nothing guards the division: a non-empty row of zeros is divided by zero, its
  quotients are \<open>nan\<close>, and the call goes on to its end without an exception.
\<close>

theorem normalization_divides_by_row_sum:
  fixes s :: store and cm :: addr
  defines "m \<equiv> int_arrays s cm"
  shows "float_arrays (fst (plot_confusion_matrix s cm classes True title cmap)) (next_float s)
           = normalize_rows m
       \<and> ((\<forall>r\<in>set m. (\<forall>x\<in>set r. is_int64 x) \<and> 0 < sum_list r \<and> sum_list r < 2 ^ 63) \<longrightarrow>
            0 \<notin> set (row_sums m) \<and> (\<forall>v\<in>set (concat (normalize_rows m)). \<exists>q. v = Fin q))
       \<and> (r \<in> set m \<and> r \<noteq> [] \<and> (\<forall>x\<in>set r. x = 0) \<longrightarrow>
            0 \<in> set (row_sums m) \<and> NaN \<in> set (concat (normalize_rows m))
            \<and> snd (snd (plot_confusion_matrix s cm classes True title cmap)) = None)"
proof -
  have a: "float_arrays (fst (plot_confusion_matrix s cm classes True title cmap)) (next_float s)
           = normalize_rows m"
    unfolding plot_store m_def by (simp add: alloc_float_def)
  have b: "0 \<notin> set (row_sums m) \<and> (\<forall>v\<in>set (concat (normalize_rows m)). \<exists>q. v = Fin q)"
    if "\<forall>r\<in>set m. (\<forall>x\<in>set r. is_int64 x) \<and> 0 < sum_list r \<and> sum_list r < 2 ^ 63"
    using that by (rule normalize_rows_finite)
  have c: "0 \<in> set (row_sums m) \<and> NaN \<in> set (concat (normalize_rows m))
            \<and> snd (snd (plot_confusion_matrix s cm classes True title cmap)) = None"
    if h: "r \<in> set m \<and> r \<noteq> [] \<and> (\<forall>x\<in>set r. x = 0)"
  proof -
    from h have r: "r \<in> set m" "r \<noteq> []" "\<forall>x\<in>set r. x = 0" by blast+
    obtain mx where "amax (displayed m True) = Inr mx"
      using normalize_rows_zero_row(3) [OF r] by blast
    then have "snd (snd (plot_confusion_matrix s cm classes True title cmap)) = None"
      by (simp add: plot_outcome m_def)
    then show ?thesis
      using normalize_rows_zero_row(1,2) [OF r] by blast
  qed
  show ?thesis using a b c by blast
qed

text \<open>Positive row sums at address 0; a row of zeros at address 1.\<close>

theorem normalization_divides_by_row_sum_witness:
  "int_arrays example_store 0 = [[1, 3], [20, 20]]
   \<and> 0 \<notin> set (row_sums (int_arrays example_store 0))
   \<and> [0, 0] \<in> set (int_arrays example_store 1)
   \<and> 0 \<in> set (row_sums (int_arrays example_store 1))
   \<and> NaN \<in> set (concat (normalize_rows (int_arrays example_store 1)))
   \<and> snd (snd (plot_confusion_matrix example_store 1 [0 :: nat, 1] True ''cm'' ''Blues'')) = None"
proof -
  have e: "int_arrays example_store 0 = [[1, 3], [20, 20]]"
    by (simp add: example_store_simps)
  have p: "\<forall>r\<in>set (int_arrays example_store 0).
             (\<forall>x\<in>set r. is_int64 x) \<and> 0 < sum_list r \<and> sum_list r < 2 ^ 63"
    by (simp add: example_store_simps is_int64_def)
  have z: "[0, 0] \<in> set (int_arrays example_store 1) \<and> [0, 0 :: int] \<noteq> []
           \<and> (\<forall>x\<in>set [0, 0 :: int]. x = 0)"
    by (simp add: example_store_simps)
  show ?thesis
    using e p z
      normalization_divides_by_row_sum
        [where s = example_store and cm = 0 and r = "[]" and classes = "[0 :: nat, 1]"
           and title = "''cm''" and cmap = "''Blues''"]
      normalization_divides_by_row_sum
        [where s = example_store and cm = 1 and r = "[0, 0]" and classes = "[0 :: nat, 1]"
           and title = "''cm''" and cmap = "''Blues''"]
    by blast
qed

text \<open>
  Claim C10 as it is written, for the exact row sum, fails: the row
  \<open>[2 ^ 63 - 1, 2 ^ 63 - 1, 2]\<close> has the positive sum \<open>2 ^ 64\<close>, which int64 addition
  wraps to zero, and every entry of the row is divided by zero.
\<close>

theorem row_sum_wraps_counterexample:
  "is_int64 9223372036854775807 \<and> is_int64 2
   \<and> 0 < sum_list [9223372036854775807, 9223372036854775807, 2 :: int]
   \<and> row_sums (int_arrays example_store 4) = [0]
   \<and> normalize_rows (int_arrays example_store 4) = [[PInf, PInf, PInf]]"
proof -
  have a: "true_divide 9223372036854775807 0 = PInf"
    using int64_to_float_pos [of 9223372036854775807] by (simp add: true_divide_by_zero)
  have b: "true_divide 2 0 = PInf"
    using int64_to_float_pos [of 2] by (simp add: true_divide_by_zero)
  show ?thesis
    by (simp add: example_store_simps row_sums_def normalize_rows_alt example_row_sums a b
        is_int64_def)
qed

end
